theory Spec2Isabelle
  imports Complex_Main "HOL-Library.AList" "HOL-Library.Multiset" "HOL-Library.Log_Nat"
begin

section \<open>Row-captain grouping and bill extraction (Medibill)\<close>

text \<open>
  A shallow embedding of \<^verbatim>\<open>src/utils/rowGrouping.ts\<close> and
  \<^verbatim>\<open>src/utils/billExtraction.ts\<close>.

  Modelling conventions.
  \<^item> A JavaScript \<^verbatim>\<open>number\<close> is an IEEE 754 double. A finite double is modelled by
    the rational that it denotes, and every arithmetic operation of the program rounds its
    exact result to the nearest double (\<open>roundDouble\<close>). A number field of a record
    holds the decimal that the detector wrote; the program holds the double nearest to
    it (\<open>num\<close>). Overflow is not modelled: the exponent has no upper bound, so the model
    follows the program as long as every number stays below \<open>2\<^sup>1\<^sup>0\<^sup>2\<^sup>4\<close> in magnitude.
    \<^verbatim>\<open>NaN\<close> is not an input. The two loop variables of
    \<^verbatim>\<open>findNearestAnchor\<close> that start at \<^verbatim>\<open>Infinity\<close> have the type \<open>jsnum\<close>.
  \<^item> A string is a list of ASCII characters; white space is the ASCII white space that
    \<^verbatim>\<open>trim\<close> and the regular expression \<^verbatim>\<open>\s\<close> both accept.
  \<^item> A property that may be \<^verbatim>\<open>undefined\<close> at run time is an \<open>option\<close>:
    the class label (the code guards against its absence) and the value.
  \<^item> Prediction objects live in a store; arrays and the keys of a \<^verbatim>\<open>Map\<close> hold
    references, so that two detections with equal content stay two objects.
  \<^item> A \<^verbatim>\<open>TypeError\<close> is the left summand of the result.
  \<^item> \<^verbatim>\<open>console.log\<close> calls are left out.
\<close>

subsection \<open>Strings\<close>

definition isSpace :: "char \<Rightarrow> bool" where
  "isSpace c = (c \<in> set [CHR '' '', CHR 0x09, CHR 0x0A, CHR 0x0B, CHR 0x0C, CHR 0x0D])"

definition toLowerChar :: "char \<Rightarrow> char" where
  "toLowerChar c =
     (case map_of (zip ''ABCDEFGHIJKLMNOPQRSTUVWXYZ'' ''abcdefghijklmnopqrstuvwxyz'') c of
        None \<Rightarrow> c
      | Some d \<Rightarrow> d)"

definition toLowerCase :: "string \<Rightarrow> string" where
  "toLowerCase s = map toLowerChar s"

definition trim :: "string \<Rightarrow> string" where
  "trim s = rev (dropWhile isSpace (rev (dropWhile isSpace s)))"

text \<open>\<^verbatim>\<open>s.replace(/\s+/g, ' ')\<close>: every maximal run of white space becomes one space.\<close>

function collapseSpaces :: "string \<Rightarrow> string" where
  "collapseSpaces [] = []"
| "collapseSpaces (c # cs) =
     (if isSpace c then CHR '' '' # collapseSpaces (dropWhile isSpace cs)
      else c # collapseSpaces cs)"
  by pat_completeness auto
termination
  by (relation "measure length") (auto simp: length_dropWhile_le less_Suc_eq_le)

fun startsWith :: "string \<Rightarrow> string \<Rightarrow> bool" where
  "startsWith s [] = True"
| "startsWith [] (p # ps) = False"
| "startsWith (c # cs) (p # ps) = (c = p \<and> startsWith cs ps)"

fun includesStr :: "string \<Rightarrow> string \<Rightarrow> bool" where
  "includesStr [] pat = (pat = [])"
| "includesStr (c # cs) pat = (startsWith (c # cs) pat \<or> includesStr cs pat)"

text \<open>Both source files define the same \<^verbatim>\<open>normalizeClassName\<close>.\<close>

definition normalizeClassName :: "string \<Rightarrow> string" where
  "normalizeClassName className = collapseSpaces (toLowerCase (trim className))"

text \<open>The decimal text of a non-negative integer, as a template literal prints it.\<close>

definition digitChar :: "nat \<Rightarrow> char" where
  "digitChar d = ''0123456789'' ! d"

fun showNat :: "nat \<Rightarrow> string" where
  "showNat n = (if n < 10 then [digitChar n] else showNat (n div 10) @ [digitChar (n mod 10)])"

declare showNat.simps [simp del]

subsection \<open>Numbers\<close>

text \<open>Rounding to the nearest integer, ties to the even one.\<close>

definition roundHalfEven :: "rat \<Rightarrow> int" where
  "roundHalfEven y =
     (let f = \<lfloor>y\<rfloor>; r = y - of_int f
      in if r < 1 / 2 then f else if 1 / 2 < r then f + 1 else if even f then f else f + 1)"

text \<open>The binary exponent of a positive rational \<open>x\<close>: the \<open>e\<close> with
  \<open>2\<^sup>e \<le> x < 2\<^sup>e\<^sup>+\<^sup>1\<close>, found from the bit lengths of numerator and denominator.\<close>

definition expo :: "rat \<Rightarrow> int" where
  "expo x =
     (case quotient_of x of
        (p, q) \<Rightarrow> let e = bitlen p - bitlen q in if 2 powi e \<le> x then e else e - 1)"

text \<open>The format binary64: 52 stored bits of the significand, smallest exponent of a
  normal number -1022. The doubles around \<open>x\<close> are the multiples of \<open>ulp x\<close>; below
  \<open>2\<^sup>-\<^sup>1\<^sup>0\<^sup>2\<^sup>2\<close> the spacing stays \<open>2\<^sup>-\<^sup>1\<^sup>0\<^sup>7\<^sup>4\<close> (gradual underflow).\<close>

definition precision :: int where
  "precision = 52"

definition emin :: int where
  "emin = - 1022"

definition ulp :: "rat \<Rightarrow> rat" where
  "ulp x = 2 powi (max (expo \<bar>x\<bar>) emin - precision)"

text \<open>Round to nearest, ties to even: the rounding of every operation and of every
  decimal literal.\<close>

definition roundDouble :: "rat \<Rightarrow> rat" where
  "roundDouble x =
     (if x = 0 then 0 else sgn x * of_int (roundHalfEven (\<bar>x\<bar> / ulp x)) * ulp x)"

text \<open>The double that a decimal denotes, and the operations \<^verbatim>\<open>a + b\<close>,
  \<^verbatim>\<open>a - b\<close> and \<^verbatim>\<open>a / b\<close> on doubles. \<^verbatim>\<open>Math.abs\<close> and the
  comparisons are exact.\<close>

definition num :: "rat \<Rightarrow> rat" where
  "num x = roundDouble x"

definition fadd :: "rat \<Rightarrow> rat \<Rightarrow> rat" where
  "fadd a b = roundDouble (a + b)"

definition fsub :: "rat \<Rightarrow> rat \<Rightarrow> rat" where
  "fsub a b = roundDouble (a - b)"

definition fdiv :: "rat \<Rightarrow> rat \<Rightarrow> rat" where
  "fdiv a b = roundDouble (a / b)"

subsection \<open>Data\<close>

record Bbox =
  bbox_x :: rat
  bbox_y :: rat
  bbox_width :: rat
  bbox_height :: rat

record Prediction =
  cls :: "string option"
  bbox :: Bbox
  confidence :: rat
  val :: "string option"

record Row =
  medName :: "string option"
  batchExp :: "string option"
  quantity :: "string option"
  hsnCode :: "string option"
  amount :: "string option"

text \<open>\<^verbatim>\<open>keyof Row\<close>, and the two accesses \<^verbatim>\<open>row[fieldName]\<close>.\<close>

datatype FieldName = MedNameF | BatchExpF | QuantityF | HsnCodeF | AmountF

fun getField :: "Row \<Rightarrow> FieldName \<Rightarrow> string option" where
  "getField row MedNameF = medName row"
| "getField row BatchExpF = batchExp row"
| "getField row QuantityF = quantity row"
| "getField row HsnCodeF = hsnCode row"
| "getField row AmountF = amount row"

fun setField :: "Row \<Rightarrow> FieldName \<Rightarrow> string option \<Rightarrow> Row" where
  "setField row MedNameF v = row\<lparr>medName := v\<rparr>"
| "setField row BatchExpF v = row\<lparr>batchExp := v\<rparr>"
| "setField row QuantityF v = row\<lparr>quantity := v\<rparr>"
| "setField row HsnCodeF v = row\<lparr>hsnCode := v\<rparr>"
| "setField row AmountF v = row\<lparr>amount := v\<rparr>"

datatype error = TypeError

type_synonym ref = nat
type_synonym heap = "ref \<Rightarrow> Prediction"

subsection \<open>Classifying labels\<close>

definition FIELD_MAPPING :: "(string \<times> FieldName) list" where
  "FIELD_MAPPING =
     [(''Med Name'', MedNameF), (''Batch Exp'', BatchExpF), (''Quantity'', QuantityF),
      (''HSN Code'', HsnCodeF), (''Amount'', AmountF)]"

definition isAnchorClass :: "string \<Rightarrow> bool" where
  "isAnchorClass className =
     (let normalized = normalizeClassName className in
        normalized = ''med name'' \<or> normalized = ''medname'' \<or>
        normalized = ''medicine name'' \<or> normalized = ''medicine'' \<or>
        normalized = ''med'' \<or> normalized = ''item'' \<or> normalized = ''product'' \<or>
        includesStr normalized ''med name'' \<or> includesStr normalized ''medicine'' \<or>
        startsWith normalized ''med'')"

definition getFieldName :: "string \<Rightarrow> FieldName option" where
  "getFieldName className =
     (let normalized = normalizeClassName className in
      case find (\<lambda>(key, v). normalizeClassName key = normalized) FIELD_MAPPING of
        Some (key, v) \<Rightarrow> Some v
      | None \<Rightarrow>
          if includesStr normalized ''med name'' \<or> includesStr normalized ''medname'' \<or>
             includesStr normalized ''medicine name'' then Some MedNameF
          else if includesStr normalized ''batch exp'' \<or> includesStr normalized ''batchexp''
            then Some BatchExpF
          else if includesStr normalized ''quantity'' \<or> normalized = ''qty'' then Some QuantityF
          else if includesStr normalized ''hsn code'' \<or> includesStr normalized ''hsncode''
            then Some HsnCodeF
          else if includesStr normalized ''amount'' \<or> includesStr normalized ''price''
            then Some AmountF
          else None)"

text \<open>
  \<^verbatim>\<open>getFieldName(prediction.class)\<close> at a detection without a class label: the
  call \<^verbatim>\<open>className.trim()\<close> inside \<^verbatim>\<open>normalizeClassName\<close> raises.
\<close>

definition fieldNameOf :: "Prediction \<Rightarrow> error + FieldName option" where
  "fieldNameOf prediction =
     (case cls prediction of None \<Rightarrow> Inl TypeError | Some c \<Rightarrow> Inr (getFieldName c))"

subsection \<open>Sorting an array\<close>

text \<open>
  \<^verbatim>\<open>Array.prototype.sort(comparefn)\<close> as a stable insertion sort. For a consistent
  comparator (one that comes from a total preorder, such as the difference of two keys)
  ECMAScript fixes the result and this is it; for an inconsistent comparator the
  language leaves the order to the engine, and the model is one admissible engine.
\<close>

fun insertBy :: "('a \<Rightarrow> 'a \<Rightarrow> rat) \<Rightarrow> 'a \<Rightarrow> 'a list \<Rightarrow> 'a list" where
  "insertBy cmp a [] = [a]"
| "insertBy cmp a (b # bs) = (if cmp a b \<le> 0 then a # b # bs else b # insertBy cmp a bs)"

definition sortBy :: "('a \<Rightarrow> 'a \<Rightarrow> rat) \<Rightarrow> 'a list \<Rightarrow> 'a list" where
  "sortBy cmp xs = foldr (insertBy cmp) xs []"

subsection \<open>Nearest anchor\<close>

definition getVerticalCenter :: "Bbox \<Rightarrow> rat" where
  "getVerticalCenter b = fadd (num (bbox_y b)) (fdiv (num (bbox_height b)) 2)"

datatype jsnum = Infinity | Num rat

text \<open>\<^verbatim>\<open>Math.abs(distance - minDistance) < 5\<close> and \<^verbatim>\<open>v < bound\<close>, where the
  right operand may still be \<^verbatim>\<open>Infinity\<close>.\<close>

fun withinFive :: "rat \<Rightarrow> jsnum \<Rightarrow> bool" where
  "withinFive distance Infinity = False"
| "withinFive distance (Num m) = (\<bar>fsub distance m\<bar> < 5)"

fun below :: "rat \<Rightarrow> jsnum \<Rightarrow> bool" where
  "below v Infinity = True"
| "below v (Num m) = (v < m)"

text \<open>One round of the loop; the state is
  \<open>(nearestAnchor, minDistance, nearestAnchorY)\<close>.\<close>

definition nearestStep ::
  "heap \<Rightarrow> rat \<Rightarrow> ref option \<times> jsnum \<times> jsnum \<Rightarrow> ref \<Rightarrow> ref option \<times> jsnum \<times> jsnum" where
  "nearestStep h predCenter st anchor =
     (case st of (nearestAnchor, minDistance, nearestAnchorY) \<Rightarrow>
        let anchorCenter = getVerticalCenter (bbox (h anchor));
            distance = \<bar>fsub predCenter anchorCenter\<bar>
        in if withinFive distance minDistance then
             (if below anchorCenter nearestAnchorY
              then (Some anchor, Num distance, Num anchorCenter) else st)
           else if below distance minDistance
             then (Some anchor, Num distance, Num anchorCenter)
           else st)"

definition findNearestAnchor :: "heap \<Rightarrow> Prediction \<Rightarrow> ref list \<Rightarrow> ref option" where
  "findNearestAnchor h prediction anchors =
     (if anchors = [] then None
      else fst (foldl (nearestStep h (getVerticalCenter (bbox prediction)))
                  (None, Infinity, Infinity) anchors))"

subsection \<open>groupByRowCaptain\<close>

text \<open>The first loop: detections without a class label (absent or empty) are skipped,
  the others go to \<open>anchors\<close> or to \<open>nonAnchors\<close>.\<close>

fun partitionLoop :: "heap \<Rightarrow> ref list \<Rightarrow> ref list \<times> ref list \<Rightarrow> ref list \<times> ref list" where
  "partitionLoop h [] (anchors, nonAnchors) = (anchors, nonAnchors)"
| "partitionLoop h (prediction # rest) (anchors, nonAnchors) =
     (case cls (h prediction) of
        None \<Rightarrow> partitionLoop h rest (anchors, nonAnchors)
      | Some c \<Rightarrow>
          if c = [] then partitionLoop h rest (anchors, nonAnchors)
          else if isAnchorClass c then partitionLoop h rest (anchors @ [prediction], nonAnchors)
          else partitionLoop h rest (anchors, nonAnchors @ [prediction]))"

definition emptyRow :: Row where
  "emptyRow = \<lparr>medName = None, batchExp = None, quantity = None, hsnCode = None,
               amount = None\<rparr>"

text \<open>The loop of the zero-anchor branch; it runs over the whole input.\<close>

fun fallbackLoop :: "heap \<Rightarrow> ref list \<Rightarrow> Row \<Rightarrow> error + Row" where
  "fallbackLoop h [] row = Inr row"
| "fallbackLoop h (prediction # rest) row =
     (case fieldNameOf (h prediction) of
        Inl e \<Rightarrow> Inl e
      | Inr None \<Rightarrow> fallbackLoop h rest row
      | Inr (Some fieldName) \<Rightarrow>
          if getField row fieldName = None
          then fallbackLoop h rest (setField row fieldName (cls (h prediction)))
          else fallbackLoop h rest row)"

definition centerCmp :: "heap \<Rightarrow> ref \<Rightarrow> ref \<Rightarrow> rat" where
  "centerCmp h a b =
     (let aCenter = getVerticalCenter (bbox (h a));
          bCenter = getVerticalCenter (bbox (h b))
      in fsub aCenter bCenter)"

definition placeholderName :: "nat \<Rightarrow> string" where
  "placeholderName index = ''Medicine '' @ showNat (index + 1)"

definition placeholderRow :: "nat \<Rightarrow> Row" where
  "placeholderRow index =
     \<lparr>medName = Some (placeholderName index), batchExp = None, quantity = None,
      hsnCode = None, amount = None\<rparr>"

definition initialRows :: "ref list \<Rightarrow> Row list" where
  "initialRows anchors = map placeholderRow [0..<length anchors]"

text \<open>A \<^verbatim>\<open>Map\<close> is an association list in insertion order: \<open>AList.update\<close>
  replaces the value of a key in place and appends a new key, as \<^verbatim>\<open>Map.set\<close> does.\<close>

definition anchorToRowIndex :: "ref list \<Rightarrow> (ref \<times> nat) list" where
  "anchorToRowIndex anchors =
     foldl (\<lambda>m (anchor, index). AList.update anchor index m) []
       (zip anchors [0..<length anchors])"

definition emptyGroups :: "ref list \<Rightarrow> (ref \<times> ref list) list" where
  "emptyGroups anchors = foldl (\<lambda>m anchor. AList.update anchor [] m) [] anchors"

definition assignStep ::
  "heap \<Rightarrow> ref list \<Rightarrow> (ref \<times> ref list) list \<Rightarrow> ref \<Rightarrow> (ref \<times> ref list) list" where
  "assignStep h anchors m prediction =
     (case findNearestAnchor h (h prediction) anchors of
        None \<Rightarrow> m
      | Some nearestAnchor \<Rightarrow>
          (case map_of m nearestAnchor of
             None \<Rightarrow> m
           | Some members \<Rightarrow> AList.update nearestAnchor (members @ [prediction]) m))"

definition predictionsByAnchor ::
  "heap \<Rightarrow> ref list \<Rightarrow> ref list \<Rightarrow> (ref \<times> ref list) list" where
  "predictionsByAnchor h anchors nonAnchors =
     foldl (assignStep h anchors) (emptyGroups anchors) nonAnchors"

text \<open>Inside the loop over the groups: \<open>predictionsByField\<close>.\<close>

fun bucketLoop ::
  "heap \<Rightarrow> ref list \<Rightarrow> (FieldName \<times> ref list) list \<Rightarrow> error + (FieldName \<times> ref list) list"
  where
  "bucketLoop h [] m = Inr m"
| "bucketLoop h (prediction # rest) m =
     (case fieldNameOf (h prediction) of
        Inl e \<Rightarrow> Inl e
      | Inr None \<Rightarrow> bucketLoop h rest m
      | Inr (Some fieldName) \<Rightarrow>
          bucketLoop h rest
            (AList.update fieldName
               ((case map_of m fieldName of None \<Rightarrow> [] | Some ps \<Rightarrow> ps) @ [prediction]) m))"

text \<open>The comparator of \<^verbatim>\<open>fieldPredictions.sort\<close>. On a number \<^verbatim>\<open>c || 0\<close> is
  \<open>c\<close>. The literal \<^verbatim>\<open>0.01\<close> is the double nearest to one hundredth.\<close>

definition confidenceCmp :: "heap \<Rightarrow> ref \<Rightarrow> ref \<Rightarrow> rat" where
  "confidenceCmp h a b =
     (let confDiff = fsub (num (confidence (h b))) (num (confidence (h a)))
      in if \<bar>confDiff\<bar> > num (1 / 100) then confDiff
         else fsub (num (bbox_x (bbox (h a)))) (num (bbox_x (bbox (h b)))))"

text \<open>\<^verbatim>\<open>if (prediction.value)\<close>: a string is truthy when it is present and not
  empty.\<close>

definition truthy :: "string option \<Rightarrow> bool" where
  "truthy v = (case v of None \<Rightarrow> False | Some s \<Rightarrow> s \<noteq> [])"

definition fieldValue :: "FieldName \<Rightarrow> Prediction \<Rightarrow> string option" where
  "fieldValue fieldName prediction =
     (if truthy (val prediction) then val prediction
      else if fieldName = QuantityF then Some ''1''
      else if fieldName = AmountF then Some ''0''
      else if fieldName = HsnCodeF then Some ''3004''
      else cls prediction)"

definition assignField ::
  "heap \<Rightarrow> (FieldName \<times> ref list) list \<Rightarrow> Row \<Rightarrow> FieldName \<Rightarrow> Row" where
  "assignField h predictionsByField row fieldName =
     (if fieldName = MedNameF then row
      else case map_of predictionsByField fieldName of
             None \<Rightarrow> row
           | Some fieldPredictions \<Rightarrow>
               (case sortBy (confidenceCmp h) fieldPredictions of
                  [] \<Rightarrow> row
                | prediction # _ \<Rightarrow>
                    setField row fieldName (fieldValue fieldName (h prediction))))"

definition fieldPriority :: "FieldName list" where
  "fieldPriority = [MedNameF, BatchExpF, QuantityF, HsnCodeF, AmountF]"

definition fillRow :: "heap \<Rightarrow> Row \<Rightarrow> ref list \<Rightarrow> error + Row" where
  "fillRow h row assignedPredictions =
     (case bucketLoop h assignedPredictions [] of
        Inl e \<Rightarrow> Inl e
      | Inr predictionsByField \<Rightarrow>
          Inr (foldl (assignField h predictionsByField) row fieldPriority))"

text \<open>The loop over \<^verbatim>\<open>predictionsByAnchor.entries()\<close>; the row objects are updated
  in place.\<close>

fun fillLoop ::
  "heap \<Rightarrow> (ref \<times> nat) list \<Rightarrow> (ref \<times> ref list) list \<Rightarrow> Row list \<Rightarrow> error + Row list" where
  "fillLoop h toIndex [] rows = Inr rows"
| "fillLoop h toIndex ((anchor, assignedPredictions) # rest) rows =
     (case map_of toIndex anchor of
        None \<Rightarrow> fillLoop h toIndex rest rows
      | Some rowIndex \<Rightarrow>
          (case fillRow h (rows ! rowIndex) assignedPredictions of
             Inl e \<Rightarrow> Inl e
           | Inr row \<Rightarrow> fillLoop h toIndex rest (rows[rowIndex := row])))"

text \<open>The comparator of the final \<^verbatim>\<open>rows.sort\<close>: it looks for an anchor whose class
  label is the row's \<open>medName\<close>.\<close>

definition strictEq :: "string option \<Rightarrow> string option \<Rightarrow> bool" where
  "strictEq a b = (case (a, b) of (Some s, Some t) \<Rightarrow> s = t | _ \<Rightarrow> False)"

definition findAnchor :: "heap \<Rightarrow> ref list \<Rightarrow> Row \<Rightarrow> ref option" where
  "findAnchor h anchors row = find (\<lambda>anchor. strictEq (cls (h anchor)) (medName row)) anchors"

definition finalCmp :: "heap \<Rightarrow> ref list \<Rightarrow> Row \<Rightarrow> Row \<Rightarrow> rat" where
  "finalCmp h anchors a b =
     (case (findAnchor h anchors a, findAnchor h anchors b) of
        (Some aAnchor, Some bAnchor) \<Rightarrow>
          fsub (getVerticalCenter (bbox (h aAnchor))) (getVerticalCenter (bbox (h bAnchor)))
      | _ \<Rightarrow> 0)"

definition groupByRowCaptain :: "heap \<Rightarrow> ref list \<Rightarrow> error + Row list" where
  "groupByRowCaptain h predictions =
     (if predictions = [] then Inr []
      else case partitionLoop h predictions ([], []) of
        (unsorted, nonAnchors) \<Rightarrow>
          if unsorted = [] then
            (case fallbackLoop h predictions emptyRow of
               Inl e \<Rightarrow> Inl e
             | Inr row \<Rightarrow> Inr [row])
          else
            let anchors = sortBy (centerCmp h) unsorted;
                rows = initialRows anchors
            in case fillLoop h (anchorToRowIndex anchors)
                      (predictionsByAnchor h anchors nonAnchors) rows of
                 Inl e \<Rightarrow> Inl e
               | Inr filled \<Rightarrow> Inr (sortBy (finalCmp h anchors) filled))"

text \<open>A store that holds the objects of a list: object \<open>i\<close> of the list is stored at
  reference \<open>i\<close>. The references in use stay below the length of the list.\<close>

definition heapOf :: "Prediction list \<Rightarrow> heap" where
  "heapOf objs = (\<lambda>r. objs ! r)"

subsection \<open>Bill extraction\<close>

record BillMetadata =
  customerName :: "string option"
  customerPhone :: "string option"
  customerAddress :: "string option"
  billNumber :: "string option"
  billDate :: "string option"
  doctorName :: "string option"

record ExtractedBillData =
  medicines :: "Row list"
  metadata :: BillMetadata
  totalMedicines :: nat

text \<open>\<^verbatim>\<open>keyof BillMetadata\<close>, and \<^verbatim>\<open>metadata[field]\<close>.\<close>

datatype MetaField =
  CustomerNameF | CustomerPhoneF | CustomerAddressF | BillNumberF | BillDateF | DoctorNameF

fun getMeta :: "BillMetadata \<Rightarrow> MetaField \<Rightarrow> string option" where
  "getMeta m CustomerNameF = customerName m"
| "getMeta m CustomerPhoneF = customerPhone m"
| "getMeta m CustomerAddressF = customerAddress m"
| "getMeta m BillNumberF = billNumber m"
| "getMeta m BillDateF = billDate m"
| "getMeta m DoctorNameF = doctorName m"

fun setMeta :: "BillMetadata \<Rightarrow> MetaField \<Rightarrow> string option \<Rightarrow> BillMetadata" where
  "setMeta m CustomerNameF v = m\<lparr>customerName := v\<rparr>"
| "setMeta m CustomerPhoneF v = m\<lparr>customerPhone := v\<rparr>"
| "setMeta m CustomerAddressF v = m\<lparr>customerAddress := v\<rparr>"
| "setMeta m BillNumberF v = m\<lparr>billNumber := v\<rparr>"
| "setMeta m BillDateF v = m\<lparr>billDate := v\<rparr>"
| "setMeta m DoctorNameF v = m\<lparr>doctorName := v\<rparr>"

fun METADATA_CLASSES :: "MetaField \<Rightarrow> string list" where
  "METADATA_CLASSES CustomerNameF =
     [''customer name'', ''customer'', ''name'', ''patient name'', ''patient'']"
| "METADATA_CLASSES CustomerPhoneF =
     [''phone'', ''mobile'', ''contact'', ''phone number'', ''mobile number'']"
| "METADATA_CLASSES CustomerAddressF = [''address'', ''location'', ''residence'']"
| "METADATA_CLASSES BillNumberF =
     [''bill number'', ''bill no'', ''invoice number'', ''invoice no'', ''bill no.'']"
| "METADATA_CLASSES BillDateF = [''date'', ''bill date'', ''invoice date'', ''dated'']"
| "METADATA_CLASSES DoctorNameF = [''doctor'', ''doctor name'', ''prescribed by'', ''dr.'']"

text \<open>The keys of the metadata object, in the order of \<^verbatim>\<open>Object.keys\<close>.\<close>

definition metadataFields :: "MetaField list" where
  "metadataFields =
     [CustomerNameF, CustomerPhoneF, CustomerAddressF, BillNumberF, BillDateF, DoctorNameF]"

definition emptyMetadata :: BillMetadata where
  "emptyMetadata =
     \<lparr>customerName = None, customerPhone = None, customerAddress = None, billNumber = None,
      billDate = None, doctorName = None\<rparr>"

definition matchesMetadataField :: "string \<Rightarrow> MetaField \<Rightarrow> bool" where
  "matchesMetadataField className field =
     (let normalized = normalizeClassName className
      in list_ex (\<lambda>pattern. includesStr normalized pattern) (METADATA_CLASSES field))"

text \<open>\<^verbatim>\<open>prediction.class || ''\<close>.\<close>

definition classOrEmpty :: "Prediction \<Rightarrow> string" where
  "classOrEmpty prediction = (case cls prediction of None \<Rightarrow> [] | Some c \<Rightarrow> c)"

text \<open>The test on a normalized label that \<^verbatim>\<open>extractMetadata\<close> uses to skip a
  detection and \<^verbatim>\<open>filterMedicinePredictions\<close> to keep it.\<close>

definition medicineRelated :: "string \<Rightarrow> bool" where
  "medicineRelated normalized =
     (includesStr normalized ''med name'' \<or> includesStr normalized ''batch exp'' \<or>
      includesStr normalized ''quantity'' \<or> includesStr normalized ''hsn code'' \<or>
      includesStr normalized ''amount'')"

text \<open>The inner loop of \<^verbatim>\<open>extractMetadata\<close>, with its \<^verbatim>\<open>break\<close>.\<close>

fun fieldLoop :: "BillMetadata \<Rightarrow> string \<Rightarrow> MetaField list \<Rightarrow> BillMetadata" where
  "fieldLoop m className [] = m"
| "fieldLoop m className (field # rest) =
     (if getMeta m field = None \<and> matchesMetadataField className field
      then setMeta m field (Some className)
      else fieldLoop m className rest)"

definition metadataStep :: "BillMetadata \<Rightarrow> Prediction \<Rightarrow> BillMetadata" where
  "metadataStep m prediction =
     (let className = classOrEmpty prediction
      in if medicineRelated (normalizeClassName className) then m
         else fieldLoop m className metadataFields)"

definition confidenceDesc :: "Prediction \<Rightarrow> Prediction \<Rightarrow> rat" where
  "confidenceDesc a b = fsub (num (confidence b)) (num (confidence a))"

definition extractMetadata :: "Prediction list \<Rightarrow> BillMetadata" where
  "extractMetadata predictions =
     foldl metadataStep emptyMetadata (sortBy confidenceDesc predictions)"

definition keepsMedicine :: "Prediction \<Rightarrow> bool" where
  "keepsMedicine pred =
     (let className = normalizeClassName (classOrEmpty pred)
      in if medicineRelated className then True
         else if list_ex (\<lambda>fieldPatterns. list_ex (\<lambda>pattern. includesStr className pattern)
                            fieldPatterns)
                   (map METADATA_CLASSES metadataFields)
           then False
         else True)"

definition filterMedicinePredictions :: "heap \<Rightarrow> ref list \<Rightarrow> ref list" where
  "filterMedicinePredictions h predictions = filter (\<lambda>r. keepsMedicine (h r)) predictions"

text \<open>The records that arrive from the detector: \<open>width\<close>, \<open>height\<close>,
  \<open>confidence\<close> and \<open>value\<close> are optional.\<close>

record RawPrediction =
  raw_class :: "string option"
  raw_x :: rat
  raw_y :: rat
  raw_width :: "rat option"
  raw_height :: "rat option"
  raw_confidence :: "rat option"
  raw_value :: "string option"

text \<open>\<^verbatim>\<open>n || 0\<close> on an optional number.\<close>

definition orZero :: "rat option \<Rightarrow> rat" where
  "orZero n = (case n of None \<Rightarrow> 0 | Some v \<Rightarrow> v)"

definition convertToBboxFormat :: "RawPrediction list \<Rightarrow> Prediction list" where
  "convertToBboxFormat predictions =
     map (\<lambda>pred.
            \<lparr>cls = raw_class pred,
             bbox = \<lparr>bbox_x = raw_x pred, bbox_y = raw_y pred,
                     bbox_width = orZero (raw_width pred),
                     bbox_height = orZero (raw_height pred)\<rparr>,
             confidence = orZero (raw_confidence pred),
             val = raw_value pred\<rparr>)
         predictions"

text \<open>The objects that \<^verbatim>\<open>convertToBboxFormat\<close> creates are fresh: object \<open>i\<close> is stored
  at reference \<open>i\<close>.\<close>

definition medicineRefs :: "RawPrediction list \<Rightarrow> ref list" where
  "medicineRefs predictions =
     filterMedicinePredictions (heapOf (convertToBboxFormat predictions))
       [0..<length (convertToBboxFormat predictions)]"

definition extractBillData :: "RawPrediction list \<Rightarrow> error + ExtractedBillData" where
  "extractBillData predictions =
     (let predictionsWithBbox = convertToBboxFormat predictions;
          extracted = extractMetadata predictionsWithBbox;
          medicinePredictions = medicineRefs predictions
      in case groupByRowCaptain (heapOf predictionsWithBbox) medicinePredictions of
           Inl e \<Rightarrow> Inl e
         | Inr grouped \<Rightarrow>
             let validMedicines = filter (\<lambda>row. medName row \<noteq> None) grouped
             in Inr \<lparr>medicines = validMedicines, metadata = extracted,
                     totalMedicines = length validMedicines\<rparr>)"

subsection \<open>Notions used in the statements\<close>

definition anchorsOf :: "heap \<Rightarrow> ref list \<Rightarrow> ref list" where
  "anchorsOf h predictions = fst (partitionLoop h predictions ([], []))"

definition nonAnchorsOf :: "heap \<Rightarrow> ref list \<Rightarrow> ref list" where
  "nonAnchorsOf h predictions = snd (partitionLoop h predictions ([], []))"

text \<open>A detection with a box of width and height zero, so that its vertical center is
  its \<open>y\<close>: class label, \<open>x\<close>, \<open>y\<close>, confidence, value.\<close>

definition detection ::
  "string option \<Rightarrow> rat \<Rightarrow> rat \<Rightarrow> rat \<Rightarrow> string option \<Rightarrow> Prediction" where
  "detection c px py conf v =
     \<lparr>cls = c, bbox = \<lparr>bbox_x = px, bbox_y = py, bbox_width = 0, bbox_height = 0\<rparr>,
      confidence = conf, val = v\<rparr>"

definition rawDetection ::
  "string option \<Rightarrow> rat \<Rightarrow> rat \<Rightarrow> rat option \<Rightarrow> string option \<Rightarrow> RawPrediction" where
  "rawDetection c px py conf v =
     \<lparr>raw_class = c, raw_x = px, raw_y = py, raw_width = None, raw_height = None,
      raw_confidence = conf, raw_value = v\<rparr>"

text \<open>The two tests of the first loop.\<close>

definition isAnchor :: "Prediction \<Rightarrow> bool" where
  "isAnchor p = (case cls p of None \<Rightarrow> False | Some c \<Rightarrow> c \<noteq> [] \<and> isAnchorClass c)"

definition isNonAnchor :: "Prediction \<Rightarrow> bool" where
  "isNonAnchor p = (case cls p of None \<Rightarrow> False | Some c \<Rightarrow> c \<noteq> [] \<and> \<not> isAnchorClass c)"

text \<open>The anchors after \<^verbatim>\<open>anchors.sort\<close>, and the rows after the loop that fills them,
  before the final \<^verbatim>\<open>rows.sort\<close>.\<close>

definition sortedAnchors :: "heap \<Rightarrow> ref list \<Rightarrow> ref list" where
  "sortedAnchors h predictions = sortBy (centerCmp h) (anchorsOf h predictions)"

definition filledRows :: "heap \<Rightarrow> ref list \<Rightarrow> error + Row list" where
  "filledRows h predictions =
     fillLoop h (anchorToRowIndex (sortedAnchors h predictions))
       (predictionsByAnchor h (sortedAnchors h predictions) (nonAnchorsOf h predictions))
       (initialRows (sortedAnchors h predictions))"

text \<open>Vertical center of an anchor, and the vertical distance of a detection to it, both
  as the program computes them. Two distances are within 5 units when their computed
  difference is below 5 in magnitude.\<close>

definition center :: "heap \<Rightarrow> ref \<Rightarrow> rat" where
  "center h a = getVerticalCenter (bbox (h a))"

definition distanceTo :: "heap \<Rightarrow> Prediction \<Rightarrow> ref \<Rightarrow> rat" where
  "distanceTo h p a = \<bar>fsub (getVerticalCenter (bbox p)) (center h a)\<bar>"

definition within5 :: "rat \<Rightarrow> rat \<Rightarrow> bool" where
  "within5 d e = (\<bar>fsub d e\<bar> < 5)"

text \<open>
  The rule of the specification for the nearest anchor, in its words: the anchors are
  scanned, and a candidate replaces the best anchor so far when its distance is within 5 of
  the best distance and it lies above (smaller vertical center), or else when it is nearer.
\<close>

definition replaces :: "heap \<Rightarrow> Prediction \<Rightarrow> ref \<Rightarrow> ref \<Rightarrow> bool" where
  "replaces h p best candidate =
     (if within5 (distanceTo h p candidate) (distanceTo h p best)
      then center h candidate < center h best
      else distanceTo h p candidate < distanceTo h p best)"

definition specStep :: "heap \<Rightarrow> Prediction \<Rightarrow> ref option \<Rightarrow> ref \<Rightarrow> ref option" where
  "specStep h p best candidate =
     (case best of
        None \<Rightarrow> Some candidate
      | Some b \<Rightarrow> if replaces h p b candidate then Some candidate else Some b)"

definition nearestBySpec :: "heap \<Rightarrow> Prediction \<Rightarrow> ref list \<Rightarrow> ref option" where
  "nearestBySpec h p anchors = foldl (specStep h p) None anchors"

text \<open>The loop state of \<open>findNearestAnchor\<close> that belongs to a best anchor.\<close>

definition stateOf :: "heap \<Rightarrow> Prediction \<Rightarrow> ref option \<Rightarrow> ref option \<times> jsnum \<times> jsnum" where
  "stateOf h p best =
     (case best of
        None \<Rightarrow> (None, Infinity, Infinity)
      | Some b \<Rightarrow> (Some b, Num (distanceTo h p b), Num (center h b)))"

text \<open>The non-anchor detections whose nearest anchor is \<open>a\<close>, in input order.\<close>

definition groupOf :: "heap \<Rightarrow> ref list \<Rightarrow> ref list \<Rightarrow> ref \<Rightarrow> ref list" where
  "groupOf h anchors nonAnchors a =
     filter (\<lambda>p. findNearestAnchor h (h p) anchors = Some a) nonAnchors"

text \<open>The candidates of a field slot among the detections assigned to a row, and the
  value that the slot takes from them: \<open>before\<close> when there is none, else the value
  of the first candidate after \<^verbatim>\<open>fieldPredictions.sort\<close>.\<close>

definition lookupOrEmpty :: "(FieldName \<times> ref list) list \<Rightarrow> FieldName \<Rightarrow> ref list" where
  "lookupOrEmpty m f = (case map_of m f of None \<Rightarrow> [] | Some ps \<Rightarrow> ps)"

definition candidates :: "heap \<Rightarrow> ref list \<Rightarrow> FieldName \<Rightarrow> ref list" where
  "candidates h assigned f = filter (\<lambda>p. fieldNameOf (h p) = Inr (Some f)) assigned"

definition pick :: "heap \<Rightarrow> string option \<Rightarrow> FieldName \<Rightarrow> ref list \<Rightarrow> string option" where
  "pick h before f cands =
     (case sortBy (confidenceCmp h) cands of
        [] \<Rightarrow> before
      | w # _ \<Rightarrow> fieldValue f (h w))"

text \<open>The candidates of slot \<open>f\<close> in the row of the \<open>k\<close>-th anchor (in sorted
  order): the non-anchor detections nearest to that anchor that the classifier maps to
  \<open>f\<close>.\<close>

definition slotCandidates :: "heap \<Rightarrow> ref list \<Rightarrow> nat \<Rightarrow> FieldName \<Rightarrow> ref list" where
  "slotCandidates h predictions k f =
     candidates h
       (groupOf h (sortedAnchors h predictions) (nonAnchorsOf h predictions)
          (sortedAnchors h predictions ! k)) f"

text \<open>The pairwise rule of the winner, as the comparator decides it. The confidence gap
  of \<open>a\<close> over \<open>b\<close> is the difference of the two confidences as the program computes
  it, and it is compared with the double nearest to 0.01: \<open>a\<close> beats \<open>b\<close> when the
  gap exceeds that double, or when the gap is at most that double in magnitude and \<open>a\<close>
  is further left.\<close>

definition confidenceGap :: "Prediction \<Rightarrow> Prediction \<Rightarrow> rat" where
  "confidenceGap a b = fsub (num (confidence a)) (num (confidence b))"

definition beats :: "Prediction \<Rightarrow> Prediction \<Rightarrow> bool" where
  "beats a b =
     (confidenceGap a b > num (1 / 100) \<or>
      (\<bar>confidenceGap a b\<bar> \<le> num (1 / 100) \<and>
       num (bbox_x (bbox a)) < num (bbox_x (bbox b))))"

text \<open>Zero-anchor branch: the class label of the first detection of the input that the
  classifier maps to \<open>f\<close>.\<close>

definition firstWriter :: "heap \<Rightarrow> ref list \<Rightarrow> FieldName \<Rightarrow> string option" where
  "firstWriter h ps f =
     (case find (\<lambda>r. fieldNameOf (h r) = Inr (Some f)) ps of
        None \<Rightarrow> None
      | Some r \<Rightarrow> cls (h r))"

text \<open>Inputs of the examples.\<close>

definition clashBill :: heap where
  "clashBill =
     heapOf [detection (Some ''Medicine 2'') 0 10 (9 / 10) None,
             detection (Some ''Medicine 1'') 0 20 (9 / 10) None,
             detection (Some ''Quantity'') 50 10 (9 / 10) (Some ''A''),
             detection (Some ''Quantity'') 50 20 (9 / 10) (Some ''B'')]"

definition tieBreakBill :: heap where
  "tieBreakBill =
     heapOf [detection (Some ''Med Name'') 0 100 (9 / 10) None,
             detection (Some ''Med Name'') 0 106 (9 / 10) None,
             detection (Some ''Quantity'') 50 103 (9 / 10) None]"

text \<open>Anchors at 0 and 5.2 and a quantity at 5.1. The program computes the distances
  5.1 and 0.10000000000000053, whose computed difference is 4.999999999999999.\<close>

definition windowEdgeBill :: heap where
  "windowEdgeBill =
     heapOf [detection (Some ''Med Name'') 0 0 (9 / 10) None,
             detection (Some ''Med Name'') 0 (52 / 10) (9 / 10) None,
             detection (Some ''Quantity'') 50 (51 / 10) (9 / 10) None]"

definition namedBill :: heap where
  "namedBill =
     heapOf [detection (Some ''Med Name'') 0 100 (9 / 10) (Some ''Crocin''),
             detection (Some ''the medname'') 20 100 (9 / 10) (Some ''Paracetamol''),
             detection (Some ''Quantity'') 40 100 (9 / 10) (Some ''5'')]"

text \<open>Two quantities with confidences 0.91 and 0.90; the program computes the difference
  0.010000000000000009.\<close>

definition closeQuantitiesBill :: heap where
  "closeQuantitiesBill =
     heapOf [detection (Some ''Med Name'') 0 100 (9 / 10) None,
             detection (Some ''Quantity'') 30 100 (91 / 100) (Some ''7''),
             detection (Some ''Quantity'') 10 100 (90 / 100) (Some ''3'')]"

definition valuesBill :: heap where
  "valuesBill =
     heapOf [detection (Some ''Med Name'') 0 100 (9 / 10) None,
             detection (Some ''Quantity'') 30 102 (9 / 10) (Some ''5''),
             detection (Some ''Amount'') 60 98 (9 / 10) None,
             detection (Some ''HSN Code'') 90 100 (9 / 10) None,
             detection (Some ''Batch Exp'') 120 100 (9 / 10) None]"

definition noAnchorInput :: "RawPrediction list" where
  "noAnchorInput =
     [rawDetection (Some ''Quantity'') 0 0 (Some (9 / 10)) None,
      rawDetection (Some ''Amount'') 40 0 (Some (9 / 10)) None]"

text \<open>The metadata fields listed before \<open>g\<close>.\<close>

definition fieldsBefore :: "MetaField \<Rightarrow> MetaField list" where
  "fieldsBefore g = takeWhile (\<lambda>f. f \<noteq> g) metadataFields"

text \<open>A detection that \<open>extractMetadata\<close> can take a value from: it is not skipped as
  medicine-related and its label contains a pattern of some metadata field.\<close>

definition metadataSource :: "Prediction \<Rightarrow> bool" where
  "metadataSource p =
     (\<not> medicineRelated (normalizeClassName (classOrEmpty p)) \<and>
      list_ex (\<lambda>f. matchesMetadataField (classOrEmpty p) f) metadataFields)"

text \<open>A detection \<open>q\<close> scanned before field \<open>g\<close> was filled: if it could have filled
  \<open>g\<close>, its label sits in a field listed before \<open>g\<close>.\<close>

definition consumedBefore :: "BillMetadata \<Rightarrow> MetaField \<Rightarrow> Prediction \<Rightarrow> bool" where
  "consumedBefore final g q =
     (\<not> medicineRelated (normalizeClassName (classOrEmpty q)) \<and>
      matchesMetadataField (classOrEmpty q) g \<longrightarrow>
      (\<exists>g' \<in> set (fieldsBefore g). getMeta final g' = Some (classOrEmpty q)))"

text \<open>
  The metadata scan in the words of the amended claim: a detection that is not skipped
  fills the first field, in the listed order, that is still empty and whose patterns its
  label contains, and no other field.
\<close>

definition firstEmptyMatch :: "BillMetadata \<Rightarrow> Prediction \<Rightarrow> MetaField option" where
  "firstEmptyMatch m p =
     find (\<lambda>f. getMeta m f = None \<and> matchesMetadataField (classOrEmpty p) f) metadataFields"

definition specMetadataStep :: "BillMetadata \<Rightarrow> Prediction \<Rightarrow> BillMetadata" where
  "specMetadataStep m p =
     (if medicineRelated (normalizeClassName (classOrEmpty p)) then m
      else case firstEmptyMatch m p of
             None \<Rightarrow> m
           | Some f \<Rightarrow> setMeta m f (Some (classOrEmpty p)))"

text \<open>The fields that hold a value.\<close>

definition filledFields :: "BillMetadata \<Rightarrow> MetaField list" where
  "filledFields m = filter (\<lambda>f. getMeta m f \<noteq> None) metadataFields"

definition scenarioInput :: "RawPrediction list" where
  "scenarioInput =
     [rawDetection (Some ''Med Name'') 0 100 None None,
      rawDetection (Some ''Quantity'') 30 102 (Some (9 / 10)) (Some ''5''),
      rawDetection (Some ''Amount'') 60 98 (Some (9 / 10)) (Some ''120''),
      rawDetection (Some ''Customer Name'') 0 500 None (Some ''Asha'')]"

definition phoneInput :: "Prediction list" where
  "phoneInput =
     [detection (Some ''Customer Phone'') 0 0 (9 / 10) None,
      detection (Some ''Mobile'') 0 40 (1 / 2) None]"

section \<open>Supporting lemmas\<close>

subsection \<open>Rounding\<close>

lemma bitlen_estimate:
  assumes "0 < p" "0 < q"
  shows "(2::rat) powi (bitlen p - bitlen q - 1) < of_int p / of_int q"
    and "of_int p / of_int q < (2::rat) powi (bitlen p - bitlen q + 1)"
proof -
  from bitlen_bounds [OF assms(1)] have p: "2 ^ nat (bitlen p - 1) \<le> p" "p < 2 ^ nat (bitlen p)"
    by auto
  from bitlen_bounds [OF assms(2)] have q: "2 ^ nat (bitlen q - 1) \<le> q" "q < 2 ^ nat (bitlen q)"
    by auto
  have bp: "bitlen p \<ge> 1" and bq: "bitlen q \<ge> 1"
    using assms bitlen_eq_zero_iff [of p] bitlen_eq_zero_iff [of q] bitlen_nonneg [of p] bitlen_nonneg [of q]
    by linarith+
  have P1: "(2::rat) powi (bitlen p - 1) \<le> of_int p"
  proof -
    have "(of_int (2 ^ nat (bitlen p - 1)) :: rat) \<le> of_int p" using p(1) by (simp only: of_int_le_iff)
    then show ?thesis using bp by (simp add: power_int_def)
  qed
  have P2: "of_int p < (2::rat) powi (bitlen p)"
  proof -
    have "(of_int p :: rat) < of_int (2 ^ nat (bitlen p))" using p(2) by (simp only: of_int_less_iff)
    then show ?thesis using bp by (simp add: power_int_def)
  qed
  have Q1: "(2::rat) powi (bitlen q - 1) \<le> of_int q"
  proof -
    have "(of_int (2 ^ nat (bitlen q - 1)) :: rat) \<le> of_int q" using q(1) by (simp only: of_int_le_iff)
    then show ?thesis using bq by (simp add: power_int_def)
  qed
  have Q2: "of_int q < (2::rat) powi (bitlen q)"
  proof -
    have "(of_int q :: rat) < of_int (2 ^ nat (bitlen q))" using q(2) by (simp only: of_int_less_iff)
    then show ?thesis using bq by (simp add: power_int_def)
  qed
  have qpos: "(0::rat) < of_int q" using assms by simp
  have "(2::rat) powi (bitlen p - bitlen q - 1) * of_int q < 2 powi (bitlen p - bitlen q - 1) * 2 powi (bitlen q)"
    using Q2 by (simp)
  also have "\<dots> = 2 powi (bitlen p - 1)" by (simp flip: power_int_add)
  also have "\<dots> \<le> of_int p" by (rule P1)
  finally show "(2::rat) powi (bitlen p - bitlen q - 1) < of_int p / of_int q"
    using qpos by (simp add: pos_less_divide_eq)
  have "of_int p < (2::rat) powi (bitlen p)" by (rule P2)
  also have "\<dots> = 2 powi (bitlen p - bitlen q + 1) * 2 powi (bitlen q - 1)"
    by (simp flip: power_int_add)
  also have "\<dots> \<le> 2 powi (bitlen p - bitlen q + 1) * of_int q"
    using Q1 by simp
  finally show "of_int p / of_int q < (2::rat) powi (bitlen p - bitlen q + 1)"
    using qpos by (simp add: pos_divide_less_eq)
qed

lemma expo_bounds:
  assumes "0 < x"
  shows "2 powi expo x \<le> x" and "x < 2 powi (expo x + 1)"
proof -
  obtain p q where pq: "quotient_of x = (p, q)" by (cases "quotient_of x")
  then have q: "0 < q" and x: "x = of_int p / of_int q"
    using quotient_of_denom_pos quotient_of_div by auto
  with assms have p: "0 < p" by (simp add: zero_less_divide_iff)
  let ?e = "bitlen p - bitlen q"
  from bitlen_estimate [OF p q] have lo: "2 powi (?e - 1) < x" and hi: "x < 2 powi (?e + 1)"
    unfolding x by auto
  have ex: "expo x = (if 2 powi ?e \<le> x then ?e else ?e - 1)"
    by (simp add: expo_def pq Let_def)
  show "2 powi expo x \<le> x" using lo by (auto simp: ex)
  show "x < 2 powi (expo x + 1)" using hi by (auto simp: ex)
qed

lemma powi_add: "(2::rat) powi a * 2 powi b = 2 powi (a + b)"
  by (simp add: power_int_add)

lemma powi_nat: "0 \<le> k \<Longrightarrow> (2::rat) powi k = of_int (2 ^ nat k)"
  by (simp add: power_int_def)

lemma powi_less_imp: "(2::rat) powi m < 2 powi n \<Longrightarrow> m < n"
proof (rule ccontr)
  assume a: "(2::rat) powi m < 2 powi n" and "\<not> m < n"
  then have "n \<le> m" by simp
  then have "(2::rat) powi n \<le> 2 powi m" by (intro power_int_increasing) auto
  with a show False by simp
qed

lemma precision_nonneg: "0 \<le> precision"
  by (simp add: precision_def)

lemma expo_mono:
  assumes "0 < x" "x \<le> y"
  shows "expo x \<le> expo y"
proof -
  have "(2::rat) powi expo x \<le> x" using assms(1) by (rule expo_bounds)
  also have "x \<le> y" by fact
  also have "y < 2 powi (expo y + 1)" using assms by (intro expo_bounds) simp
  finally have "expo x < expo y + 1" by (rule powi_less_imp)
  then show ?thesis by simp
qed

lemma roundHalfEven_cases:
  "roundHalfEven y = \<lfloor>y\<rfloor> \<or> roundHalfEven y = \<lfloor>y\<rfloor> + 1"
  by (simp add: roundHalfEven_def Let_def)

lemma roundHalfEven_of_int: "roundHalfEven (of_int n) = n"
  by (simp add: roundHalfEven_def)

lemma roundHalfEven_mono:
  assumes "x \<le> y"
  shows "roundHalfEven x \<le> roundHalfEven y"
proof (cases "\<lfloor>x\<rfloor> = \<lfloor>y\<rfloor>")
  case True
  then show ?thesis using assms by (auto simp: roundHalfEven_def Let_def)
next
  case False
  then have "\<lfloor>x\<rfloor> < \<lfloor>y\<rfloor>" using floor_mono [OF assms] by simp
  then show ?thesis using roundHalfEven_cases [of x] roundHalfEven_cases [of y] by auto
qed

lemma roundHalfEven_le_powi:
  assumes "0 \<le> k" "y \<le> 2 powi k"
  shows "of_int (roundHalfEven y) \<le> (2::rat) powi k"
proof -
  have "roundHalfEven y \<le> roundHalfEven (of_int (2 ^ nat k))"
    using assms by (intro roundHalfEven_mono) (simp add: powi_nat)
  then have "(of_int (roundHalfEven y) :: rat) \<le> of_int (2 ^ nat k)"
    by (simp only: roundHalfEven_of_int of_int_le_iff)
  then show ?thesis using assms(1) by (simp only: powi_nat)
qed

lemma roundHalfEven_ge_powi:
  assumes "0 \<le> k" "2 powi k \<le> y"
  shows "(2::rat) powi k \<le> of_int (roundHalfEven y)"
proof -
  have "roundHalfEven (of_int (2 ^ nat k)) \<le> roundHalfEven y"
    using assms by (intro roundHalfEven_mono) (simp add: powi_nat)
  then have "(of_int (2 ^ nat k) :: rat) \<le> of_int (roundHalfEven y)"
    by (simp only: roundHalfEven_of_int of_int_le_iff)
  then show ?thesis using assms(1) by (simp only: powi_nat)
qed

lemma roundDouble_0: "roundDouble 0 = 0"
  by (simp add: roundDouble_def)

lemma ulp_minus: "ulp (- x) = ulp x"
  by (simp add: ulp_def)

lemma roundDouble_minus: "roundDouble (- x) = - roundDouble x"
  by (simp add: roundDouble_def ulp_minus sgn_minus)

lemma ulp_pos: "0 < ulp x"
  by (simp add: ulp_def)

lemma roundDouble_pos_eq:
  "0 < x \<Longrightarrow> roundDouble x = of_int (roundHalfEven (x / ulp x)) * ulp x"
  by (simp add: roundDouble_def)

lemma ulp_pos_eq: "0 < x \<Longrightarrow> ulp x = 2 powi (max (expo x) emin - precision)"
  by (simp add: ulp_def)

lemma roundDouble_nonneg:
  assumes "0 \<le> x"
  shows "0 \<le> roundDouble x"
proof (cases "x = 0")
  case True
  then show ?thesis by (simp add: roundDouble_0)
next
  case False
  with assms have x: "0 < x" by simp
  have "0 \<le> x / ulp x" using x ulp_pos [of x] by simp
  then have "roundHalfEven (of_int 0) \<le> roundHalfEven (x / ulp x)"
    by (intro roundHalfEven_mono) simp
  then have "0 \<le> roundHalfEven (x / ulp x)" by (simp only: roundHalfEven_of_int)
  then show ?thesis using x ulp_pos [of x] by (simp add: roundDouble_pos_eq)
qed

lemma roundDouble_upper:
  assumes "0 < x"
  shows "roundDouble x \<le> 2 powi (max (expo x) emin + 1)"
proof -
  let ?e = "max (expo x) emin"
  have u: "ulp x = 2 powi (?e - precision)" using assms by (rule ulp_pos_eq)
  have eq: "precision + 1 + (?e - precision) = ?e + 1" by simp
  have "x < 2 powi (expo x + 1)" using assms by (rule expo_bounds)
  also have "\<dots> \<le> 2 powi (?e + 1)" by (intro power_int_increasing) auto
  also have "\<dots> = 2 powi (precision + 1) * 2 powi (?e - precision)"
    by (simp only: powi_add eq)
  finally have "x / ulp x \<le> 2 powi (precision + 1)"
    unfolding u by (simp add: pos_divide_le_eq)
  then have "of_int (roundHalfEven (x / ulp x)) \<le> (2::rat) powi (precision + 1)"
    using precision_nonneg by (intro roundHalfEven_le_powi) auto
  then have "roundDouble x \<le> 2 powi (precision + 1) * 2 powi (?e - precision)"
    unfolding roundDouble_pos_eq [OF assms] u by (intro mult_right_mono) auto
  then show ?thesis by (simp only: powi_add eq)
qed

lemma roundDouble_lower:
  assumes "0 < x" "emin \<le> expo x"
  shows "2 powi expo x \<le> roundDouble x"
proof -
  have u: "ulp x = 2 powi (expo x - precision)"
    using assms by (simp add: ulp_pos_eq max_def)
  have "2 powi precision * 2 powi (expo x - precision) = (2::rat) powi expo x"
    by (simp add: powi_add)
  also have "\<dots> \<le> x" using assms(1) by (rule expo_bounds)
  finally have "2 powi precision \<le> x / ulp x"
    unfolding u by (simp add: pos_le_divide_eq)
  then have "(2::rat) powi precision \<le> of_int (roundHalfEven (x / ulp x))"
    using precision_nonneg by (intro roundHalfEven_ge_powi) auto
  then have "2 powi precision * 2 powi (expo x - precision) \<le> roundDouble x"
    unfolding roundDouble_pos_eq [OF assms(1)] u by (intro mult_right_mono) auto
  then show ?thesis by (simp add: powi_add)
qed

lemma roundDouble_mono_pos:
  assumes "0 < x" "x \<le> y"
  shows "roundDouble x \<le> roundDouble y"
proof -
  have y: "0 < y" using assms by simp
  let ?ex = "max (expo x) emin" and ?ey = "max (expo y) emin"
  have le: "?ex \<le> ?ey" using expo_mono [OF assms] by auto
  show ?thesis
  proof (cases "?ex = ?ey")
    case True
    then have u: "ulp x = ulp y" using assms y by (simp add: ulp_pos_eq)
    have "x / ulp y \<le> y / ulp y" using assms ulp_pos [of y] by (simp add: divide_right_mono)
    then have "roundHalfEven (x / ulp y) \<le> roundHalfEven (y / ulp y)" by (rule roundHalfEven_mono)
    then have "(of_int (roundHalfEven (x / ulp y)) :: rat) \<le> of_int (roundHalfEven (y / ulp y))"
      by (simp only: of_int_le_iff)
    then show ?thesis
      unfolding roundDouble_pos_eq [OF assms(1)] roundDouble_pos_eq [OF y] u
      using ulp_pos [of y] by (intro mult_right_mono) auto
  next
    case False
    with le have lt: "?ex < ?ey" by linarith
    then have ey: "emin \<le> expo y" "?ex + 1 \<le> expo y" by linarith+
    have "roundDouble x \<le> 2 powi (?ex + 1)" using assms(1) by (rule roundDouble_upper)
    also have "\<dots> \<le> 2 powi expo y" using ey(2) by (intro power_int_increasing) auto
    also have "\<dots> \<le> roundDouble y" using y ey(1) by (rule roundDouble_lower)
    finally show ?thesis .
  qed
qed

lemma roundDouble_mono:
  assumes "x \<le> y"
  shows "roundDouble x \<le> roundDouble y"
proof -
  consider "0 < x" | "x \<le> 0" "0 \<le> y" | "y < 0" using assms by linarith
  then show ?thesis
  proof cases
    case 1
    then show ?thesis using assms by (rule roundDouble_mono_pos)
  next
    case 2
    have "roundDouble x \<le> 0" using roundDouble_nonneg [of "- x"] 2 by (simp add: roundDouble_minus)
    also have "0 \<le> roundDouble y" using 2 by (intro roundDouble_nonneg)
    finally show ?thesis .
  next
    case 3
    then have "roundDouble (- y) \<le> roundDouble (- x)" using assms by (intro roundDouble_mono_pos) auto
    then show ?thesis by (simp add: roundDouble_minus)
  qed
qed

lemma roundDouble_less_imp_less:
  assumes "roundDouble x < roundDouble y"
  shows "x < y"
proof (rule ccontr)
  assume "\<not> x < y"
  then have "roundDouble y \<le> roundDouble x" by (intro roundDouble_mono) simp
  with assms show False by simp
qed

text \<open>Every double is a multiple of the smallest positive one, so two different doubles
  are at least that far apart and their computed difference is not zero.\<close>

lemma ulp_multiple: "\<exists>n :: int. 0 < n \<and> ulp x = of_int n * 2 powi (emin - precision)"
proof -
  let ?e = "max (expo \<bar>x\<bar>) emin"
  have "ulp x = 2 powi (?e - emin) * 2 powi (emin - precision)"
    by (simp add: ulp_def powi_add)
  also have "(2::rat) powi (?e - emin) = of_int (2 ^ nat (?e - emin))"
    by (intro powi_nat) simp
  finally have "ulp x = of_int (2 ^ nat (?e - emin)) * 2 powi (emin - precision)" .
  moreover have "(0::int) < 2 ^ nat (?e - emin)" by simp
  ultimately show ?thesis by blast
qed

lemma roundDouble_multiple: "\<exists>n :: int. roundDouble x = of_int n * 2 powi (emin - precision)"
proof -
  obtain k :: int where k: "ulp x = of_int k * 2 powi (emin - precision)"
    using ulp_multiple by blast
  let ?m = "roundHalfEven (\<bar>x\<bar> / ulp x)"
  have "roundDouble x = of_int ((if x = 0 then 0 else if 0 < x then 1 else - 1) * ?m * k)
          * 2 powi (emin - precision)"
    by (simp add: roundDouble_def sgn_if) (simp add: k)
  then show ?thesis by blast
qed

lemma roundDouble_pos:
  assumes "2 powi (emin - precision) \<le> x"
  shows "0 < roundDouble x"
proof -
  have x: "0 < x" using assms by (rule less_le_trans [rotated]) simp
  have "2 powi 0 \<le> x / ulp x"
  proof (cases "emin \<le> expo x")
    case True
    then have u: "ulp x = 2 powi (expo x - precision)" using x by (simp add: ulp_pos_eq max_def)
    have "(2::rat) powi (expo x - precision) \<le> 2 powi expo x"
      using precision_nonneg by (intro power_int_increasing) auto
    also have "\<dots> \<le> x" using x by (rule expo_bounds)
    finally show ?thesis unfolding u by (simp add: pos_le_divide_eq)
  next
    case False
    then have u: "ulp x = 2 powi (emin - precision)" using x by (simp add: ulp_pos_eq max_def)
    show ?thesis unfolding u using assms by (simp add: pos_le_divide_eq)
  qed
  then have "(2::rat) powi 0 \<le> of_int (roundHalfEven (x / ulp x))"
    by (intro roundHalfEven_ge_powi) auto
  then have "0 < roundHalfEven (x / ulp x)" by simp
  then show ?thesis using ulp_pos [of x] by (simp add: roundDouble_pos_eq [OF x])
qed

lemma roundDouble_diff_pos:
  assumes "roundDouble a < roundDouble b"
  shows "0 < roundDouble (roundDouble b - roundDouble a)"
proof -
  obtain m n :: int where m: "roundDouble a = of_int m * 2 powi (emin - precision)"
    and n: "roundDouble b = of_int n * 2 powi (emin - precision)"
    using roundDouble_multiple by blast
  have "(of_int m :: rat) < of_int n" using assms unfolding m n by simp
  then have "m + 1 \<le> n" by simp
  then have "(of_int (m + 1) :: rat) \<le> of_int n" by (simp only: of_int_le_iff)
  then have "(1::rat) \<le> of_int n - of_int m" by simp
  then have "1 * 2 powi (emin - precision) \<le> (of_int n - of_int m) * (2::rat) powi (emin - precision)"
    by (intro mult_right_mono) auto
  then have "2 powi (emin - precision) \<le> roundDouble b - roundDouble a"
    unfolding m n by (simp add: algebra_simps)
  then show ?thesis by (rule roundDouble_pos)
qed

lemma roundDouble_diff_sign:
  "roundDouble (roundDouble a - roundDouble b) \<le> 0 \<longleftrightarrow> roundDouble a \<le> roundDouble b"
proof
  assume "roundDouble (roundDouble a - roundDouble b) \<le> 0"
  then show "roundDouble a \<le> roundDouble b"
    using roundDouble_diff_pos [of b a] by (rule_tac ccontr) simp
next
  assume "roundDouble a \<le> roundDouble b"
  then have "roundDouble (roundDouble a - roundDouble b) \<le> roundDouble 0"
    by (intro roundDouble_mono) simp
  then show "roundDouble (roundDouble a - roundDouble b) \<le> 0" by (simp add: roundDouble_0)
qed

lemma powi_le_imp: "(2::rat) powi m \<le> 2 powi n \<Longrightarrow> m \<le> n"
proof (rule ccontr)
  assume a: "(2::rat) powi m \<le> 2 powi n" and "\<not> m \<le> n"
  then have "n < m" by simp
  then have "(2::rat) powi n < 2 powi m" by (intro power_int_strict_increasing) auto
  with a show False by simp
qed

lemma roundHalfEven_bounds:
  assumes "0 < x"
  shows "0 \<le> roundHalfEven (x / ulp x)"
    and "of_int (roundHalfEven (x / ulp x)) \<le> (2::rat) powi (precision + 1)"
proof -
  let ?e = "max (expo x) emin"
  have u: "ulp x = 2 powi (?e - precision)" using assms by (rule ulp_pos_eq)
  have eq: "precision + 1 + (?e - precision) = ?e + 1" by simp
  have "0 \<le> x / ulp x" using assms ulp_pos [of x] by simp
  then have "roundHalfEven (of_int 0) \<le> roundHalfEven (x / ulp x)"
    by (intro roundHalfEven_mono) simp
  then show "0 \<le> roundHalfEven (x / ulp x)" by (simp only: roundHalfEven_of_int)
  have "x < 2 powi (expo x + 1)" using assms by (rule expo_bounds)
  also have "\<dots> \<le> 2 powi (?e + 1)" by (intro power_int_increasing) auto
  also have "\<dots> = 2 powi (precision + 1) * 2 powi (?e - precision)"
    by (simp only: powi_add eq)
  finally have "x / ulp x \<le> 2 powi (precision + 1)"
    unfolding u by (simp add: pos_divide_le_eq)
  then show "of_int (roundHalfEven (x / ulp x)) \<le> (2::rat) powi (precision + 1)"
    using precision_nonneg by (intro roundHalfEven_le_powi) auto
qed

text \<open>A positive multiple of a power of two with at most 53 significant bits and an
  exponent in range is a double.\<close>

lemma representable:
  assumes "0 < n" and "of_int n \<le> (2::rat) powi (precision + 1)" and "emin \<le> e"
  shows "roundDouble (of_int n * 2 powi (e - precision)) = of_int n * 2 powi (e - precision)"
proof -
  let ?y = "of_int n * (2::rat) powi (e - precision)"
  let ?e' = "max (expo ?y) emin"
  have y: "0 < ?y" using assms(1) by simp
  have u: "ulp ?y = 2 powi (?e' - precision)" using y by (rule ulp_pos_eq)
  have eq: "precision + 1 + (e - precision) = e + 1" by simp
  have "?y \<le> 2 powi (precision + 1) * 2 powi (e - precision)"
    using assms(2) by (intro mult_right_mono) auto
  then have top: "?y \<le> 2 powi (e + 1)" by (simp only: powi_add eq)
  have "(2::rat) powi expo ?y \<le> ?y" using y by (rule expo_bounds)
  with top have "(2::rat) powi expo ?y \<le> 2 powi (e + 1)" by simp
  then have ex: "expo ?y \<le> e + 1" by (rule powi_le_imp)
  have "\<exists>m :: int. ?y / ulp ?y = of_int m"
  proof (cases "?e' \<le> e")
    case True
    have "2 powi (e - ?e') * 2 powi (?e' - precision) = (2::rat) powi (e - precision)"
      by (simp only: powi_add) simp
    then have "?y / ulp ?y = of_int n * 2 powi (e - ?e')"
      unfolding u by (simp add: field_simps)
    also have "(2::rat) powi (e - ?e') = of_int (2 ^ nat (e - ?e'))"
      using True by (intro powi_nat) simp
    finally have "?y / ulp ?y = of_int (n * 2 ^ nat (e - ?e'))" by simp
    then show ?thesis by blast
  next
    case False
    with ex assms(3) have e': "expo ?y = e + 1" "?e' = e + 1" by linarith+
    have "(2::rat) powi (e + 1) \<le> ?y" using expo_bounds(1) [OF y] unfolding e'(1) .
    with top have "?y = 2 powi (e + 1)" by simp
    moreover have "2 powi precision * 2 powi (e + 1 - precision) = (2::rat) powi (e + 1)"
      by (simp only: powi_add) simp
    ultimately have "?y / ulp ?y = 2 powi precision"
      unfolding u e'(2) by (simp add: field_simps)
    also have "\<dots> = of_int (2 ^ nat precision)" using precision_nonneg by (rule powi_nat)
    finally show ?thesis by blast
  qed
  then obtain m :: int where m: "?y / ulp ?y = of_int m" by blast
  have "roundDouble ?y = of_int (roundHalfEven (?y / ulp ?y)) * ulp ?y"
    using y by (rule roundDouble_pos_eq)
  also have "\<dots> = (?y / ulp ?y) * ulp ?y" by (simp only: m roundHalfEven_of_int)
  also have "\<dots> = ?y" using ulp_pos [of ?y] by simp
  finally show ?thesis .
qed

lemma roundDouble_idem_pos:
  assumes "0 < x"
  shows "roundDouble (roundDouble x) = roundDouble x"
proof -
  let ?n = "roundHalfEven (x / ulp x)"
  let ?e = "max (expo x) emin"
  have u: "ulp x = 2 powi (?e - precision)" using assms by (rule ulp_pos_eq)
  have r: "roundDouble x = of_int ?n * 2 powi (?e - precision)"
    using assms by (simp add: roundDouble_pos_eq u)
  show ?thesis
  proof (cases "?n = 0")
    case True
    then show ?thesis by (simp add: r roundDouble_0)
  next
    case False
    with roundHalfEven_bounds(1) [OF assms] have "0 < ?n" by simp
    from representable [OF this roundHalfEven_bounds(2) [OF assms], of ?e]
    show ?thesis unfolding r by simp
  qed
qed

lemma roundDouble_idem: "roundDouble (roundDouble x) = roundDouble x"
proof -
  consider "0 < x" | "x = 0" | "x < 0" by linarith
  then show ?thesis
  proof cases
    case 1
    then show ?thesis by (rule roundDouble_idem_pos)
  next
    case 2
    then show ?thesis by (simp add: roundDouble_0)
  next
    case 3
    then have "roundDouble (roundDouble (- x)) = roundDouble (- x)"
      by (intro roundDouble_idem_pos) simp
    then show ?thesis by (simp add: roundDouble_minus)
  qed
qed

text \<open>A double is read as itself: on a record that holds doubles, \<open>num\<close> changes
  nothing.\<close>

lemma num_idem: "num (num x) = num x"
  unfolding num_def by (rule roundDouble_idem)

lemma fsub_minus: "fsub a b = - fsub b a"
  using roundDouble_minus [of "b - a"] by (simp add: fsub_def)

lemma fsub_self: "fsub a a = 0"
  by (simp add: fsub_def roundDouble_0)

lemma fsub_le_0: "a \<le> b \<Longrightarrow> fsub a b \<le> 0"
  using roundDouble_mono [of "a - b" 0] by (simp add: fsub_def roundDouble_0)

lemma fsub_doubles_le_0_iff:
  "fsub (roundDouble a) (roundDouble b) \<le> 0 \<longleftrightarrow> roundDouble a \<le> roundDouble b"
  unfolding fsub_def by (rule roundDouble_diff_sign)

lemma fsub_doubles_less_0_iff:
  "fsub (roundDouble a) (roundDouble b) < 0 \<longleftrightarrow> roundDouble a < roundDouble b"
  using fsub_doubles_le_0_iff [of b a] fsub_minus [of "roundDouble a" "roundDouble b"]
  by auto

subsection \<open>Partition and sorting\<close>

lemma partitionLoop_filter:
  "partitionLoop h ps (as, ns) =
     (as @ filter (\<lambda>r. isAnchor (h r)) ps, ns @ filter (\<lambda>r. isNonAnchor (h r)) ps)"
  by (induction ps arbitrary: as ns) (auto simp: isAnchor_def isNonAnchor_def split: option.splits)

lemma anchorsOf_filter: "anchorsOf h ps = filter (\<lambda>r. isAnchor (h r)) ps"
  by (simp add: anchorsOf_def partitionLoop_filter)

lemma nonAnchorsOf_filter: "nonAnchorsOf h ps = filter (\<lambda>r. isNonAnchor (h r)) ps"
  by (simp add: nonAnchorsOf_def partitionLoop_filter)

lemma mset_insertBy: "mset (insertBy cmp a xs) = add_mset a (mset xs)"
  by (induction xs) auto

lemma mset_sortBy: "mset (sortBy cmp xs) = mset xs"
  by (induction xs) (auto simp: sortBy_def mset_insertBy)

lemma set_sortBy: "set (sortBy cmp xs) = set xs"
  using mset_sortBy [of cmp xs] by (metis set_mset_mset)

lemma length_sortBy: "length (sortBy cmp xs) = length xs"
  using mset_sortBy [of cmp xs] by (metis size_mset)

lemma sortBy_Nil_iff: "sortBy cmp xs = [] \<longleftrightarrow> xs = []"
  using length_sortBy [of cmp xs] by auto

text \<open>A comparator that is not positive exactly when the key of its first argument is at
  most the key of the second sorts by the key, stably.\<close>

lemma insertBy_key:
  "(\<And>a b. cmp a b \<le> 0 \<longleftrightarrow> k a \<le> k b) \<Longrightarrow> insertBy cmp a xs = insort_key k a xs"
  by (induction xs) auto

lemma sortBy_key:
  "(\<And>a b. cmp a b \<le> 0 \<longleftrightarrow> k a \<le> k b) \<Longrightarrow> sortBy cmp xs = sort_key k xs"
  by (induction xs) (auto simp: sortBy_def insertBy_key)

lemma centerCmp_le:
  "centerCmp h a b \<le> 0 \<longleftrightarrow> getVerticalCenter (bbox (h a)) \<le> getVerticalCenter (bbox (h b))"
  unfolding centerCmp_def Let_def getVerticalCenter_def fadd_def
  by (rule fsub_doubles_le_0_iff)

lemma sortBy_centerCmp:
  "sortBy (centerCmp h) xs = sort_key (\<lambda>a. getVerticalCenter (bbox (h a))) xs"
  by (rule sortBy_key) (rule centerCmp_le)

lemma sortBy_all_le:
  "(\<And>a b. a \<in> set xs \<Longrightarrow> b \<in> set xs \<Longrightarrow> cmp a b \<le> 0) \<Longrightarrow> sortBy cmp xs = xs"
proof (induction xs)
  case Nil
  then show ?case by (simp add: sortBy_def)
next
  case (Cons x xs)
  then have "sortBy cmp xs = xs" by simp
  then have "sortBy cmp (x # xs) = insertBy cmp x xs" by (simp add: sortBy_def)
  also have "\<dots> = x # xs" using Cons.prems by (cases xs) auto
  finally show ?case .
qed

subsection \<open>The nearest anchor\<close>

lemma nearestStep_stateOf:
  "nearestStep h (getVerticalCenter (bbox p)) (stateOf h p best) a = stateOf h p (specStep h p best a)"
  by (cases best)
     (auto simp: nearestStep_def stateOf_def specStep_def replaces_def distanceTo_def center_def
        within5_def Let_def)

lemma foldl_nearestStep:
  "foldl (nearestStep h (getVerticalCenter (bbox p))) (stateOf h p best) as =
     stateOf h p (foldl (specStep h p) best as)"
  by (induction as arbitrary: best) (simp_all add: nearestStep_stateOf)

lemma fst_stateOf: "fst (stateOf h p best) = best"
  by (cases best) (simp_all add: stateOf_def)

lemma findNearestAnchor_spec: "findNearestAnchor h p as = nearestBySpec h p as"
proof (cases "as = []")
  case True
  then show ?thesis by (simp add: findNearestAnchor_def nearestBySpec_def)
next
  case False
  have "(None, Infinity, Infinity) = stateOf h p None" by (simp add: stateOf_def)
  then show ?thesis
    using False foldl_nearestStep [of h p None as]
    by (simp add: findNearestAnchor_def nearestBySpec_def fst_stateOf)
qed

lemma nearestBySpec_snoc: "nearestBySpec h p (as @ [a]) = specStep h p (nearestBySpec h p as) a"
  by (simp add: nearestBySpec_def)

text \<open>A candidate that is nearer than the best anchor and outside its window is nearer
  than every anchor that the best one had not lost to.\<close>

lemma outside_window_nearer:
  assumes "\<not> within5 dx da" and "dx < da" and "da \<le> db \<or> within5 db da"
  shows "dx < db"
proof (cases "da \<le> db")
  case True
  with assms(2) show ?thesis by simp
next
  case False
  with assms(3) have w: "\<bar>fsub db da\<bar> < 5" by (simp add: within5_def)
  have "fsub dx da \<le> 0" using assms(2) by (intro fsub_le_0) simp
  with assms(1) have "fsub dx da \<le> - 5" by (simp add: within5_def)
  also have "- 5 < fsub db da" using w by simp
  finally have "roundDouble (dx - da) < roundDouble (db - da)" by (simp add: fsub_def)
  then have "dx - da < db - da" by (rule roundDouble_less_imp_less)
  then show ?thesis by simp
qed

lemma nearestBySpec_sorted:
  "as \<noteq> [] \<Longrightarrow> sorted (map (center h) as) \<Longrightarrow>
   \<exists>a \<in> set as. nearestBySpec h p as = Some a
     \<and> (\<forall>b \<in> set as. distanceTo h p a \<le> distanceTo h p b
                        \<or> within5 (distanceTo h p b) (distanceTo h p a))
     \<and> (\<forall>b \<in> set as. center h b < center h a \<longrightarrow> distanceTo h p a < distanceTo h p b)"
proof (induction as rule: rev_induct)
  case Nil
  then show ?case by simp
next
  case (snoc x bs)
  show ?case
  proof (cases "bs = []")
    case True
    then show ?thesis by (simp add: nearestBySpec_def specStep_def)
  next
    case False
    from snoc.prems have srt: "sorted (map (center h) bs)"
      and le: "\<forall>b \<in> set bs. center h b \<le> center h x"
      by (auto simp: sorted_append)
    from snoc.IH [OF False srt] obtain a where a: "a \<in> set bs" "nearestBySpec h p bs = Some a"
      and p1: "\<forall>b \<in> set bs. distanceTo h p a \<le> distanceTo h p b
                 \<or> within5 (distanceTo h p b) (distanceTo h p a)"
      and p2: "\<forall>b \<in> set bs. center h b < center h a \<longrightarrow> distanceTo h p a < distanceTo h p b"
      by blast
    have ax: "center h a \<le> center h x" using a le by blast
    show ?thesis
    proof (cases "replaces h p a x")
      case True
      with ax have far: "\<not> within5 (distanceTo h p x) (distanceTo h p a)"
        and lt: "distanceTo h p x < distanceTo h p a"
        by (auto simp: replaces_def split: if_splits)
      have nearer: "distanceTo h p x < distanceTo h p b" if "b \<in> set bs" for b
        using outside_window_nearer [OF far lt] p1 that by blast
      have res: "nearestBySpec h p (bs @ [x]) = Some x"
        using a True by (simp add: nearestBySpec_snoc specStep_def)
      have "\<forall>b \<in> set (bs @ [x]). distanceTo h p x \<le> distanceTo h p b
               \<or> within5 (distanceTo h p b) (distanceTo h p x)"
        using nearer by fastforce
      moreover have "\<forall>b \<in> set (bs @ [x]). center h b < center h x \<longrightarrow>
               distanceTo h p x < distanceTo h p b"
        using nearer by fastforce
      ultimately show ?thesis using res by auto
    next
      case False
      with ax have near: "distanceTo h p a \<le> distanceTo h p x
               \<or> within5 (distanceTo h p x) (distanceTo h p a)"
        by (auto simp: replaces_def split: if_splits)
      have res: "nearestBySpec h p (bs @ [x]) = Some a"
        using a False by (simp add: nearestBySpec_snoc specStep_def)
      have "\<forall>b \<in> set (bs @ [x]). distanceTo h p a \<le> distanceTo h p b
               \<or> within5 (distanceTo h p b) (distanceTo h p a)"
        using p1 near by auto
      moreover have "\<forall>b \<in> set (bs @ [x]). center h b < center h a \<longrightarrow>
               distanceTo h p a < distanceTo h p b"
        using p2 ax by auto
      ultimately show ?thesis using res a by auto
    qed
  qed
qed

lemma nearestBySpec_in_set: "as \<noteq> [] \<Longrightarrow> \<exists>a \<in> set as. nearestBySpec h p as = Some a"
proof (induction as rule: rev_induct)
  case Nil
  then show ?case by simp
next
  case (snoc x bs)
  show ?case
  proof (cases "bs = []")
    case True
    then show ?thesis by (simp add: nearestBySpec_def specStep_def)
  next
    case False
    with snoc.IH obtain a where "a \<in> set bs" "nearestBySpec h p bs = Some a" by blast
    then show ?thesis by (auto simp: nearestBySpec_snoc specStep_def)
  qed
qed

lemma sorted_centers_sortBy: "sorted (map (center h) (sortBy (centerCmp h) xs))"
  by (simp add: sortBy_centerCmp center_def [abs_def])

subsection \<open>Groups and rows\<close>

lemma map_of_emptyGroups_aux:
  "map_of (foldl (\<lambda>m a. AList.update a [] m) m0 as) a =
     (if a \<in> set as then Some [] else map_of m0 a)"
  by (induction as arbitrary: m0) (auto simp: update_conv')

lemma distinct_emptyGroups_aux:
  "distinct (map fst m0) \<Longrightarrow> distinct (map fst (foldl (\<lambda>m a. AList.update a ([]::ref list) m) m0 as))"
  by (induction as arbitrary: m0) (auto simp: distinct_update)

lemma map_of_emptyGroups:
  "map_of (emptyGroups as) a = (if a \<in> set as then Some [] else None)"
  by (simp add: emptyGroups_def map_of_emptyGroups_aux)

lemma distinct_emptyGroups: "distinct (map fst (emptyGroups as))"
  by (simp add: emptyGroups_def distinct_emptyGroups_aux)

lemma distinct_assignStep:
  "distinct (map fst m) \<Longrightarrow> distinct (map fst (assignStep h as m p))"
  by (auto simp: assignStep_def distinct_update split: option.splits)

lemma distinct_predictionsByAnchor: "distinct (map fst (predictionsByAnchor h as ns))"
proof -
  have "distinct (map fst m) \<Longrightarrow> distinct (map fst (foldl (assignStep h as) m ns))" for m
    by (induction ns arbitrary: m) (auto simp: distinct_assignStep)
  then show ?thesis by (simp add: predictionsByAnchor_def distinct_emptyGroups)
qed

lemma predictionsByAnchor_snoc:
  "predictionsByAnchor h as (ns @ [p]) = assignStep h as (predictionsByAnchor h as ns) p"
  by (simp add: predictionsByAnchor_def)

lemma map_of_predictionsByAnchor:
  "map_of (predictionsByAnchor h as ns) a =
     (if a \<in> set as then Some (groupOf h as ns a) else None)"
proof (induction ns arbitrary: a rule: rev_induct)
  case Nil
  then show ?case by (simp add: predictionsByAnchor_def map_of_emptyGroups groupOf_def)
next
  case (snoc p ns)
  show ?case
  proof (cases "as = []")
    case True
    then show ?thesis
      using snoc.IH
      by (simp add: predictionsByAnchor_snoc assignStep_def findNearestAnchor_def)
  next
    case False
    then obtain b where b: "b \<in> set as" "findNearestAnchor h (h p) as = Some b"
      using nearestBySpec_in_set [of as h "h p"] by (auto simp: findNearestAnchor_spec)
    have step: "predictionsByAnchor h as (ns @ [p]) =
        AList.update b (groupOf h as ns b @ [p]) (predictionsByAnchor h as ns)"
      using b snoc.IH [of b] by (simp add: predictionsByAnchor_snoc assignStep_def)
    show ?thesis
      using b snoc.IH [of a] by (auto simp: step update_conv' groupOf_def)
  qed
qed

lemma group_members:
  assumes "(a, g) \<in> set (predictionsByAnchor h as ns)"
  shows "a \<in> set as \<and> g = groupOf h as ns a"
proof -
  from assms have "map_of (predictionsByAnchor h as ns) a = Some g"
    using distinct_predictionsByAnchor [of h as ns] by simp
  then show ?thesis by (auto simp: map_of_predictionsByAnchor split: if_splits)
qed

lemma nonAnchor_has_class: "p \<in> set (nonAnchorsOf h ps) \<Longrightarrow> cls (h p) \<noteq> None"
  by (auto simp: nonAnchorsOf_filter isNonAnchor_def split: option.splits)

lemma bucketLoop_ok:
  "\<forall>p \<in> set ps. cls (h p) \<noteq> None \<Longrightarrow>
   \<exists>m'. bucketLoop h ps m = Inr m'
      \<and> (\<forall>f. lookupOrEmpty m' f = lookupOrEmpty m f @ candidates h ps f)"
proof (induction ps arbitrary: m)
  case Nil
  then show ?case by (simp add: candidates_def)
next
  case (Cons p ps)
  then obtain c where c: "cls (h p) = Some c" by auto
  show ?case
  proof (cases "getFieldName c")
    case None
    then show ?thesis using Cons c by (simp add: fieldNameOf_def candidates_def)
  next
    case (Some g)
    let ?m = "AList.update g (lookupOrEmpty m g @ [p]) m"
    from Cons obtain m' where m': "bucketLoop h ps ?m = Inr m'"
      "\<forall>f. lookupOrEmpty m' f = lookupOrEmpty ?m f @ candidates h ps f"
      by (metis list.set_intros(2))
    have "bucketLoop h (p # ps) m = Inr m'"
      using c Some m'(1) by (simp add: fieldNameOf_def lookupOrEmpty_def)
    moreover have "lookupOrEmpty m' f = lookupOrEmpty m f @ candidates h (p # ps) f" for f
      using m'(2) c Some
      by (auto simp: lookupOrEmpty_def update_conv' candidates_def fieldNameOf_def)
    ultimately show ?thesis by blast
  qed
qed

lemma bucketLoop_error:
  "bucketLoop h ps m = Inr m' \<Longrightarrow> \<forall>p \<in> set ps. cls (h p) \<noteq> None"
  by (induction ps arbitrary: m)
     (auto simp: fieldNameOf_def split: option.splits sum.splits)

lemma assignField_lookup:
  "assignField h m row f =
     (if f = MedNameF then row
      else case sortBy (confidenceCmp h) (lookupOrEmpty m f) of
             [] \<Rightarrow> row
           | w # _ \<Rightarrow> setField row f (fieldValue f (h w)))"
  by (auto simp: assignField_def lookupOrEmpty_def sortBy_def split: option.splits)

lemma getField_setField: "getField (setField row f v) g = (if f = g then v else getField row g)"
  by (cases f; cases g) simp_all

lemma getField_assignField:
  "getField (assignField h m row f) g =
     (if f = g \<and> f \<noteq> MedNameF then pick h (getField row g) f (lookupOrEmpty m f)
      else getField row g)"
  by (auto simp: assignField_lookup pick_def getField_setField
        simp del: getField.simps setField.simps split: list.splits)

lemma pick_idem: "pick h (pick h v f cs) f cs = pick h v f cs"
  by (simp add: pick_def split: list.splits)

lemma getField_foldl_assignField:
  "getField (foldl (assignField h m) row fs) f =
     (if f \<in> set fs \<and> f \<noteq> MedNameF then pick h (getField row f) f (lookupOrEmpty m f)
      else getField row f)"
  by (induction fs rule: rev_induct)
     (auto simp: getField_assignField pick_idem simp del: getField.simps)

lemma getField_fill:
  "getField (foldl (assignField h m) row fieldPriority) f =
     (if f = MedNameF then getField row f else pick h (getField row f) f (lookupOrEmpty m f))"
  unfolding getField_foldl_assignField by (cases f) (simp_all add: fieldPriority_def)

lemma fillRow_fields:
  assumes "fillRow h row assigned = Inr row'"
  shows "getField row' f =
     (if f = MedNameF then getField row f
      else pick h (getField row f) f (candidates h assigned f))"
proof -
  from assms obtain m where m: "bucketLoop h assigned [] = Inr m"
    and row': "row' = foldl (assignField h m) row fieldPriority"
    by (auto simp: fillRow_def split: sum.splits)
  from bucketLoop_error [OF m] bucketLoop_ok [of assigned h "[]"] m
  have "lookupOrEmpty m f = candidates h assigned f"
    by (auto simp: lookupOrEmpty_def)
  then show ?thesis by (simp add: row' getField_fill)
qed

lemma fillRow_ok:
  "\<forall>p \<in> set assigned. cls (h p) \<noteq> None \<Longrightarrow> \<exists>row'. fillRow h row assigned = Inr row'"
  using bucketLoop_ok [of assigned h "[]"] by (auto simp: fillRow_def)

lemma fillRow_medName: "fillRow h row assigned = Inr row' \<Longrightarrow> medName row' = medName row"
  using fillRow_fields [of h row assigned row' MedNameF] by simp

subsection \<open>The result of groupByRowCaptain\<close>

lemma partitionLoop_split:
  "partitionLoop h ps ([], []) = (anchorsOf h ps, nonAnchorsOf h ps)"
  by (simp add: anchorsOf_def nonAnchorsOf_def)

lemma anchorsOf_Nil [simp]: "anchorsOf h [] = []"
  by (simp add: anchorsOf_def)

lemma groupByRowCaptain_normal:
  "anchorsOf h ps \<noteq> [] \<Longrightarrow>
   groupByRowCaptain h ps =
     (case filledRows h ps of
        Inl e \<Rightarrow> Inl e
      | Inr filled \<Rightarrow> Inr (sortBy (finalCmp h (sortedAnchors h ps)) filled))"
  unfolding groupByRowCaptain_def filledRows_def sortedAnchors_def
  by (cases "ps = []") (simp_all add: partitionLoop_split Let_def)

lemma groupByRowCaptain_fallback:
  "ps \<noteq> [] \<Longrightarrow> anchorsOf h ps = [] \<Longrightarrow>
   groupByRowCaptain h ps =
     (case fallbackLoop h ps emptyRow of Inl e \<Rightarrow> Inl e | Inr row \<Rightarrow> Inr [row])"
  by (simp add: groupByRowCaptain_def partitionLoop_split)

lemma groupByRowCaptain_Nil: "groupByRowCaptain h [] = Inr []"
  by (simp add: groupByRowCaptain_def)

lemma fillLoop_medName:
  "\<forall>(a, g) \<in> set groups. \<forall>p \<in> set g. cls (h p) \<noteq> None \<Longrightarrow>
   \<exists>rows'. fillLoop h toIndex groups rows = Inr rows' \<and> map medName rows' = map medName rows"
proof (induction groups arbitrary: rows)
  case Nil
  then show ?case by simp
next
  case (Cons e groups)
  obtain a g where e: "e = (a, g)" by (cases e)
  from Cons.prems e have g: "\<forall>p \<in> set g. cls (h p) \<noteq> None"
    and rest: "\<forall>(a, g) \<in> set groups. \<forall>p \<in> set g. cls (h p) \<noteq> None"
    by auto
  show ?case
  proof (cases "map_of toIndex a")
    case None
    then show ?thesis using Cons.IH [OF rest, of rows] e by simp
  next
    case (Some i)
    from fillRow_ok [OF g] obtain row' where row': "fillRow h (rows ! i) g = Inr row'"
      by blast
    have "map medName (rows[i := row']) = map medName rows"
      using fillRow_medName [OF row']
      by (cases "i < length rows") (simp_all add: map_update list_update_same_conv list_update_beyond)
    then show ?thesis
      using Cons.IH [OF rest, of "rows[i := row']"] e Some row' by simp
  qed
qed

lemma groups_have_class:
  "\<forall>(a, g) \<in> set (predictionsByAnchor h as (nonAnchorsOf h ps)). \<forall>p \<in> set g. cls (h p) \<noteq> None"
proof -
  have "cls (h p) \<noteq> None"
    if "(a, g) \<in> set (predictionsByAnchor h as (nonAnchorsOf h ps))" "p \<in> set g" for a g p
    using group_members [OF that(1)] that(2) nonAnchor_has_class [of p h ps]
    by (simp add: groupOf_def)
  then show ?thesis by blast
qed

lemma length_sortedAnchors: "length (sortedAnchors h ps) = length (anchorsOf h ps)"
  by (simp add: sortedAnchors_def length_sortBy)

lemma filledRows_medName:
  "\<exists>filled. filledRows h ps = Inr filled
     \<and> map medName filled = map (\<lambda>i. Some (placeholderName i)) [0..<length (anchorsOf h ps)]"
proof -
  from fillLoop_medName [OF groups_have_class]
  obtain filled where "filledRows h ps = Inr filled"
    "map medName filled = map medName (initialRows (sortedAnchors h ps))"
    unfolding filledRows_def by blast
  then show ?thesis
    by (auto simp: initialRows_def placeholderRow_def length_sortedAnchors)
qed

lemma groupByRowCaptain_length:
  assumes "anchorsOf h ps \<noteq> []"
  shows "\<exists>rows. groupByRowCaptain h ps = Inr rows \<and> length rows = length (anchorsOf h ps)"
proof -
  from filledRows_medName [of h ps] obtain filled where f: "filledRows h ps = Inr filled"
    "map medName filled = map (\<lambda>i. Some (placeholderName i)) [0..<length (anchorsOf h ps)]"
    by blast
  from f(2) have "length filled = length (anchorsOf h ps)"
    by (metis length_map length_upt minus_nat.diff_0)
  then show ?thesis
    using f(1) assms by (simp add: groupByRowCaptain_normal length_sortBy)
qed

lemma findAnchor_None:
  "\<forall>a \<in> set as. cls (h a) \<noteq> medName row \<Longrightarrow> findAnchor h as row = None"
  by (auto simp: findAnchor_def find_None_iff strictEq_def split: option.splits)

lemma groupByRowCaptain_order:
  assumes "anchorsOf h ps \<noteq> []"
    and "\<forall>a \<in> set (anchorsOf h ps). \<forall>i < length (anchorsOf h ps). cls (h a) \<noteq> Some (placeholderName i)"
  shows "groupByRowCaptain h ps = filledRows h ps"
proof -
  from filledRows_medName [of h ps] obtain filled where f: "filledRows h ps = Inr filled"
    "map medName filled = map (\<lambda>i. Some (placeholderName i)) [0..<length (anchorsOf h ps)]"
    by blast
  have names: "\<exists>i < length (anchorsOf h ps). medName row = Some (placeholderName i)"
    if "row \<in> set filled" for row
  proof -
    from that have "medName row \<in> set (map medName filled)" by simp
    then show ?thesis unfolding f(2) by auto
  qed
  have "findAnchor h (sortedAnchors h ps) row = None" if "row \<in> set filled" for row
  proof (rule findAnchor_None, rule ballI)
    fix a assume "a \<in> set (sortedAnchors h ps)"
    then have "a \<in> set (anchorsOf h ps)" by (simp add: sortedAnchors_def set_sortBy)
    with assms(2) names [OF that] show "cls (h a) \<noteq> medName row" by auto
  qed
  then have "sortBy (finalCmp h (sortedAnchors h ps)) filled = filled"
    by (intro sortBy_all_le) (simp add: finalCmp_def)
  then show ?thesis using f(1) assms(1) by (simp add: groupByRowCaptain_normal)
qed

subsection \<open>Rows of the anchors, winners, the zero-anchor branch\<close>

lemma sortBy_Cons: "sortBy cmp (x # xs) = insertBy cmp x (sortBy cmp xs)"
  by (simp add: sortBy_def)

lemma sortBy_dominant:
  assumes "w \<in> set cs"
    and "\<forall>c \<in> set cs. c \<noteq> w \<longrightarrow> cmp w c \<le> 0 \<and> cmp c w > 0"
    and "cmp w w \<le> 0"
  shows "\<exists>rest. sortBy cmp cs = w # rest"
  using assms(1,2)
proof (induction cs)
  case Nil
  then show ?case by simp
next
  case (Cons c cs)
  show ?case
  proof (cases "c = w")
    case True
    show ?thesis
    proof (cases "sortBy cmp cs")
      case Nil
      then show ?thesis using True by (simp add: sortBy_Cons)
    next
      case (Cons y ys)
      then have "y \<in> set cs" using set_sortBy [of cmp cs] by auto
      then have "cmp w y \<le> 0" using Cons.prems(2) assms(3) by (cases "y = w") auto
      then show ?thesis using True Cons by (simp add: sortBy_Cons)
    qed
  next
    case False
    then have "w \<in> set cs" using Cons.prems(1) by simp
    then obtain rest where rest: "sortBy cmp cs = w # rest" using Cons by auto
    have "cmp c w > 0" using Cons.prems(2) False by simp
    then show ?thesis using rest by (simp add: sortBy_Cons)
  qed
qed

lemma beats_confidenceCmp:
  assumes "beats (h w) (h c)"
  shows "confidenceCmp h w c < 0 \<and> confidenceCmp h c w > 0"
proof -
  let ?g = "fsub (num (confidence (h w))) (num (confidence (h c)))"
  let ?x = "fsub (num (bbox_x (bbox (h w)))) (num (bbox_x (bbox (h c))))"
  have gflip: "fsub (num (confidence (h c))) (num (confidence (h w))) = - ?g"
    by (rule fsub_minus)
  have xflip: "fsub (num (bbox_x (bbox (h c)))) (num (bbox_x (bbox (h w)))) = - ?x"
    by (rule fsub_minus)
  have wc: "confidenceCmp h w c = (if \<bar>?g\<bar> > num (1 / 100) then - ?g else ?x)"
    by (simp add: confidenceCmp_def Let_def gflip)
  have cw: "confidenceCmp h c w = (if \<bar>?g\<bar> > num (1 / 100) then ?g else - ?x)"
    by (simp add: confidenceCmp_def Let_def xflip)
  have t: "0 \<le> num (1 / 100)" unfolding num_def by (rule roundDouble_nonneg) simp
  show ?thesis
  proof (cases "?g > num (1 / 100)")
    case True
    then have "\<bar>?g\<bar> > num (1 / 100)" "0 < ?g" using t by linarith+
    then show ?thesis by (simp add: wc cw)
  next
    case False
    with assms have small: "\<bar>?g\<bar> \<le> num (1 / 100)"
      and left: "num (bbox_x (bbox (h w))) < num (bbox_x (bbox (h c)))"
      by (auto simp: beats_def confidenceGap_def)
    from left have "?x < 0" unfolding num_def by (simp only: fsub_doubles_less_0_iff)
    with small show ?thesis by (simp add: wc cw)
  qed
qed

lemma confidenceCmp_refl: "confidenceCmp h w w = 0"
  by (simp add: confidenceCmp_def fsub_self roundDouble_nonneg num_def)

lemma map_of_foldl_update:
  "distinct (map fst kvs) \<Longrightarrow>
   map_of (foldl (\<lambda>m (k, v). AList.update k v m) m0 kvs) k =
     (case map_of kvs k of Some v \<Rightarrow> Some v | None \<Rightarrow> map_of m0 k)"
proof (induction kvs arbitrary: m0)
  case Nil
  then show ?case by simp
next
  case (Cons kv kvs)
  obtain k1 v1 where kv: "kv = (k1, v1)" by (cases kv)
  from Cons.prems kv have d: "distinct (map fst kvs)" and n: "k1 \<notin> fst ` set kvs" by auto
  from n have "map_of kvs k1 = None" by (simp add: map_of_eq_None_iff)
  then show ?case using Cons.IH [OF d] kv by (auto simp: update_conv' split: option.splits)
qed

lemma anchorToRowIndex_nth:
  assumes "distinct as" "k < length as"
  shows "map_of (anchorToRowIndex as) (as ! k) = Some k"
proof -
  have "map_of (zip as [0..<length as]) (as ! k) = Some ([0..<length as] ! k)"
    using assms by (intro map_of_zip_nth) auto
  then show ?thesis
    using assms by (simp add: anchorToRowIndex_def map_of_foldl_update)
qed

lemma fillLoop_distinct:
  assumes "distinct as"
    and "distinct (map fst entries)"
    and "\<forall>(a, g) \<in> set entries. a \<in> set as \<and> g = G a \<and> (\<forall>p \<in> set g. cls (h p) \<noteq> None)"
    and "length rows = length as"
  shows "\<exists>rows'. fillLoop h (anchorToRowIndex as) entries rows = Inr rows'
           \<and> length rows' = length as
           \<and> (\<forall>k < length as.
                 if as ! k \<in> fst ` set entries
                 then fillRow h (rows ! k) (G (as ! k)) = Inr (rows' ! k)
                 else rows' ! k = rows ! k)"
  using assms(2-4)
proof (induction entries arbitrary: rows)
  case Nil
  then show ?case by simp
next
  case (Cons e entries)
  obtain a g where e: "e = (a, g)" by (cases e)
  from Cons.prems(2) e have a: "a \<in> set as" and g: "g = G a"
    and cl: "\<forall>p \<in> set g. cls (h p) \<noteq> None" by auto
  from a obtain k0 where k0: "k0 < length as" "as ! k0 = a" by (auto simp: in_set_conv_nth)
  have idx: "map_of (anchorToRowIndex as) a = Some k0"
    using anchorToRowIndex_nth [OF assms(1) k0(1)] k0(2) by simp
  from fillRow_ok [OF cl] obtain r where r: "fillRow h (rows ! k0) g = Inr r" by blast
  let ?rows1 = "rows[k0 := r]"
  have d: "distinct (map fst entries)" and fresh: "a \<notin> fst ` set entries"
    using Cons.prems(1) e by auto
  have rest: "\<forall>(a, g) \<in> set entries. a \<in> set as \<and> g = G a \<and> (\<forall>p \<in> set g. cls (h p) \<noteq> None)"
    using Cons.prems(2) by auto
  have len: "length ?rows1 = length as" using Cons.prems(3) by simp
  from Cons.IH [OF d rest len] obtain rows' where
    run: "fillLoop h (anchorToRowIndex as) entries ?rows1 = Inr rows'"
    and len': "length rows' = length as"
    and each: "\<forall>k < length as.
                 if as ! k \<in> fst ` set entries
                 then fillRow h (?rows1 ! k) (G (as ! k)) = Inr (rows' ! k)
                 else rows' ! k = ?rows1 ! k"
    by blast
  have run': "fillLoop h (anchorToRowIndex as) (e # entries) rows = Inr rows'"
    using e idx r run by simp
  have "if as ! k \<in> fst ` set (e # entries)
        then fillRow h (rows ! k) (G (as ! k)) = Inr (rows' ! k)
        else rows' ! k = rows ! k" if k: "k < length as" for k
  proof (cases "k = k0")
    case True
    then have "rows' ! k = r"
      using each k k0 fresh Cons.prems(3) by auto
    then show ?thesis using True r g k0 e by simp
  next
    case False
    then have ne: "as ! k \<noteq> a"
      using assms(1) k k0 by (auto simp: nth_eq_iff_index_eq)
    have same: "?rows1 ! k = rows ! k" using False by simp
    have mem: "as ! k \<in> fst ` set (e # entries) \<longleftrightarrow> as ! k \<in> fst ` set entries"
      using ne e by auto
    from each k have "if as ! k \<in> fst ` set entries
        then fillRow h (?rows1 ! k) (G (as ! k)) = Inr (rows' ! k)
        else rows' ! k = ?rows1 ! k" by blast
    then show ?thesis unfolding mem same .
  qed
  then show ?case using run' len' by blast
qed

lemma keys_predictionsByAnchor: "fst ` set (predictionsByAnchor h as ns) = set as"
proof -
  have "dom (map_of (predictionsByAnchor h as ns)) = set as"
    by (auto simp: map_of_predictionsByAnchor dom_def)
  then show ?thesis by (simp add: dom_map_of_conv_image_fst)
qed

lemma distinct_sortBy: "distinct (sortBy cmp xs) = distinct xs"
  using mset_sortBy [of cmp xs] by (metis distinct_count_atmost_1 set_mset_mset)

lemma distinct_sortedAnchors:
  "distinct (anchorsOf h ps) \<Longrightarrow> distinct (sortedAnchors h ps)"
  by (simp add: sortedAnchors_def distinct_sortBy)

lemma nth_initialRows: "k < length as \<Longrightarrow> initialRows as ! k = placeholderRow k"
  by (simp add: initialRows_def)

lemma filledRows_distinct:
  assumes "distinct (anchorsOf h ps)"
  shows "\<exists>filled. filledRows h ps = Inr filled
           \<and> length filled = length (sortedAnchors h ps)
           \<and> (\<forall>k < length (sortedAnchors h ps).
                 fillRow h (placeholderRow k)
                   (groupOf h (sortedAnchors h ps) (nonAnchorsOf h ps) (sortedAnchors h ps ! k))
                 = Inr (filled ! k))"
proof -
  let ?as = "sortedAnchors h ps" and ?ns = "nonAnchorsOf h ps"
  let ?G = "groupOf h ?as ?ns"
  have ent: "\<forall>(a, g) \<in> set (predictionsByAnchor h ?as ?ns).
               a \<in> set ?as \<and> g = ?G a \<and> (\<forall>p \<in> set g. cls (h p) \<noteq> None)"
    using group_members [of _ _ h ?as ?ns] groups_have_class [of h ?as ps] by fast
  have len: "length (initialRows ?as) = length ?as" by (simp add: initialRows_def)
  from fillLoop_distinct [OF distinct_sortedAnchors [OF assms] distinct_predictionsByAnchor ent len]
  obtain filled where run: "filledRows h ps = Inr filled" and l: "length filled = length ?as"
    and each: "\<forall>k < length ?as.
                 if ?as ! k \<in> fst ` set (predictionsByAnchor h ?as ?ns)
                 then fillRow h (initialRows ?as ! k) (?G (?as ! k)) = Inr (filled ! k)
                 else filled ! k = initialRows ?as ! k"
    unfolding filledRows_def by blast
  have "fillRow h (placeholderRow k) (?G (?as ! k)) = Inr (filled ! k)" if "k < length ?as" for k
    using each that by (simp add: keys_predictionsByAnchor nth_initialRows)
  then show ?thesis using run l by blast
qed

lemma rows_of_anchors:
  assumes "distinct (anchorsOf h ps)" and "k < length (sortedAnchors h ps)"
  shows "\<exists>filled rows.
           filledRows h ps = Inr filled
         \<and> groupByRowCaptain h ps = Inr rows
         \<and> mset rows = mset filled
         \<and> length filled = length (sortedAnchors h ps)
         \<and> medName (filled ! k) = Some (placeholderName k)
         \<and> (\<forall>f. f \<noteq> MedNameF \<longrightarrow>
               getField (filled ! k) f = pick h None f (slotCandidates h ps k f))"
proof -
  from assms(2) have ne: "anchorsOf h ps \<noteq> []"
    by (auto simp: sortedAnchors_def sortBy_def)
  from filledRows_distinct [OF assms(1)] obtain filled
    where f: "filledRows h ps = Inr filled" "length filled = length (sortedAnchors h ps)"
      and each: "\<forall>k < length (sortedAnchors h ps).
                 fillRow h (placeholderRow k)
                   (groupOf h (sortedAnchors h ps) (nonAnchorsOf h ps) (sortedAnchors h ps ! k))
                 = Inr (filled ! k)"
    by blast
  from each assms(2) have row: "fillRow h (placeholderRow k)
      (groupOf h (sortedAnchors h ps) (nonAnchorsOf h ps) (sortedAnchors h ps ! k))
      = Inr (filled ! k)" by blast
  have res: "groupByRowCaptain h ps = Inr (sortBy (finalCmp h (sortedAnchors h ps)) filled)"
    using f(1) ne by (simp add: groupByRowCaptain_normal)
  have name: "medName (filled ! k) = Some (placeholderName k)"
    using fillRow_medName [OF row] by (simp add: placeholderRow_def)
  have slots: "getField (filled ! k) g = pick h None g (slotCandidates h ps k g)"
    if "g \<noteq> MedNameF" for g
    using fillRow_fields [OF row, of g] that
    by (cases g) (simp_all add: slotCandidates_def placeholderRow_def)
  show ?thesis using f res name slots by (auto simp: mset_sortBy)
qed

lemma fallbackLoop_raises:
  "\<exists>r \<in> set ps. cls (h r) = None \<Longrightarrow> fallbackLoop h ps row = Inl TypeError"
proof (induction ps arbitrary: row)
  case Nil
  then show ?case by simp
next
  case (Cons r ps)
  show ?case
  proof (cases "cls (h r)")
    case None
    then show ?thesis by (simp add: fieldNameOf_def)
  next
    case (Some c)
    with Cons.prems have "\<exists>r \<in> set ps. cls (h r) = None" by auto
    from Cons.IH [OF this] show ?thesis
      using Some by (simp add: fieldNameOf_def split: option.splits)
  qed
qed

lemma firstWriter_Nil: "firstWriter h [] f = None"
  by (simp add: firstWriter_def)

lemma firstWriter_Cons:
  "firstWriter h (r # ps) f =
     (if fieldNameOf (h r) = Inr (Some f) then cls (h r) else firstWriter h ps f)"
  by (simp add: firstWriter_def)

lemma fallbackLoop_fields:
  "\<forall>r \<in> set ps. cls (h r) \<noteq> None \<Longrightarrow>
   \<exists>row'. fallbackLoop h ps row = Inr row'
     \<and> (\<forall>f. getField row' f =
           (if getField row f = None then firstWriter h ps f else getField row f))"
proof (induction ps arbitrary: row)
  case Nil
  then show ?case by (simp add: firstWriter_Nil del: getField.simps)
next
  case (Cons r ps)
  then obtain c where c: "cls (h r) = Some c" by auto
  from Cons.prems have rest: "\<forall>r \<in> set ps. cls (h r) \<noteq> None" by simp
  show ?case
  proof (cases "getFieldName c")
    case None
    from Cons.IH [OF rest, of row] obtain row' where
      r: "fallbackLoop h ps row = Inr row'"
      and f: "\<forall>f. getField row' f =
           (if getField row f = None then firstWriter h ps f else getField row f)"
      by blast
    have "fallbackLoop h (r # ps) row = Inr row'"
      using c None r by (simp add: fieldNameOf_def)
    moreover have "firstWriter h (r # ps) f = firstWriter h ps f" for f
      using c None by (simp add: firstWriter_Cons fieldNameOf_def)
    ultimately show ?thesis using f by auto
  next
    case (Some g)
    show ?thesis
    proof (cases "getField row g")
      case None
      from Cons.IH [OF rest, of "setField row g (Some c)"] obtain row' where
        r: "fallbackLoop h ps (setField row g (Some c)) = Inr row'"
        and f: "\<forall>f. getField row' f =
           (if getField (setField row g (Some c)) f = None then firstWriter h ps f
            else getField (setField row g (Some c)) f)"
        by blast
      have "fallbackLoop h (r # ps) row = Inr row'"
        using c Some None r by (simp add: fieldNameOf_def)
      moreover have "getField row' f =
           (if getField row f = None then firstWriter h (r # ps) f else getField row f)" for f
        using f c Some None
        by (auto simp: getField_setField fieldNameOf_def firstWriter_Cons
            simp del: getField.simps setField.simps)
      ultimately show ?thesis by blast
    next
      case (Some v)
      from Cons.IH [OF rest, of row] obtain row' where
        r: "fallbackLoop h ps row = Inr row'"
        and f: "\<forall>f. getField row' f =
           (if getField row f = None then firstWriter h ps f else getField row f)"
        by blast
      have "fallbackLoop h (r # ps) row = Inr row'"
        using c \<open>getFieldName c = Some g\<close> Some r by (simp add: fieldNameOf_def)
      moreover have "getField row' f =
           (if getField row f = None then firstWriter h (r # ps) f else getField row f)" for f
        using f c \<open>getFieldName c = Some g\<close> Some
        by (auto simp: fieldNameOf_def firstWriter_Cons simp del: getField.simps)
      ultimately show ?thesis by blast
    qed
  qed
qed

lemma getField_emptyRow: "getField emptyRow f = None"
  by (cases f) (simp_all add: emptyRow_def)

lemma groupByRowCaptain_fallback_row:
  assumes "ps \<noteq> []" and "anchorsOf h ps = []" and "\<forall>r \<in> set ps. cls (h r) \<noteq> None"
  shows "\<exists>row. groupByRowCaptain h ps = Inr [row]
     \<and> (\<forall>f. getField row f = firstWriter h ps f)"
proof -
  from fallbackLoop_fields [OF assms(3), of emptyRow] obtain row where
    "fallbackLoop h ps emptyRow = Inr row"
    "\<forall>f. getField row f = firstWriter h ps f"
    by (auto simp: getField_emptyRow simp del: getField.simps)
  then show ?thesis using assms(1,2) by (simp add: groupByRowCaptain_fallback)
qed

lemma groupByRowCaptain_raises_iff:
  "groupByRowCaptain h ps = Inl TypeError \<longleftrightarrow>
     ps \<noteq> [] \<and> anchorsOf h ps = [] \<and> (\<exists>r \<in> set ps. cls (h r) = None)"
proof (cases "ps = []")
  case True
  then show ?thesis by (simp add: groupByRowCaptain_Nil)
next
  case False
  show ?thesis
  proof (cases "anchorsOf h ps = []")
    case True
    show ?thesis
    proof (cases "\<exists>r \<in> set ps. cls (h r) = None")
      case True
      from fallbackLoop_raises [OF this] show ?thesis
        using \<open>anchorsOf h ps = []\<close> False True by (simp add: groupByRowCaptain_fallback)
    next
      case False
      then have "\<forall>r \<in> set ps. cls (h r) \<noteq> None" by simp
      from groupByRowCaptain_fallback_row [OF \<open>ps \<noteq> []\<close> True this] False
      show ?thesis by auto
    qed
  next
    case False
    from groupByRowCaptain_length [OF this] False show ?thesis by auto
  qed
qed

lemma groupByRowCaptain_returns:
  "ps = [] \<or> anchorsOf h ps \<noteq> [] \<or> (\<forall>r \<in> set ps. cls (h r) \<noteq> None) \<Longrightarrow>
   \<exists>rows. groupByRowCaptain h ps = Inr rows"
  using groupByRowCaptain_raises_iff [of h ps]
  by (cases "groupByRowCaptain h ps") (auto intro: error.exhaust)

lemma heapOf_convert:
  "r < length input \<Longrightarrow>
   cls (heapOf (convertToBboxFormat input) r) = raw_class (input ! r)"
  by (simp add: heapOf_def convertToBboxFormat_def)

lemma medicineRefs_range: "r \<in> set (medicineRefs input) \<Longrightarrow> r < length input"
  by (auto simp: medicineRefs_def filterMedicinePredictions_def convertToBboxFormat_def)

subsection \<open>The metadata scan\<close>

lemma getMeta_setMeta: "getMeta (setMeta m f v) g = (if f = g then v else getMeta m g)"
  by (cases f; cases g) simp_all

lemma all_metadataFields: "g \<in> set metadataFields"
  by (cases g) (simp_all add: metadataFields_def)

lemma fieldLoop_none:
  "\<forall>f \<in> set fs. \<not> (getMeta m f = None \<and> matchesMetadataField c f) \<Longrightarrow> fieldLoop m c fs = m"
  by (induction fs) auto

lemma fieldLoop_fills:
  "f \<in> set fs \<Longrightarrow> getMeta m f = None \<Longrightarrow> matchesMetadataField c f \<Longrightarrow>
   \<exists>f' \<in> set (takeWhile (\<lambda>x. x \<noteq> f) fs @ [f]).
      getMeta m f' = None \<and> matchesMetadataField c f' \<and> fieldLoop m c fs = setMeta m f' (Some c)"
  by (induction fs) (auto simp del: getMeta.simps setMeta.simps)

lemma fieldLoop_cases:
  "fieldLoop m c fs = m \<or>
   (\<exists>f' \<in> set fs. getMeta m f' = None \<and> matchesMetadataField c f'
      \<and> fieldLoop m c fs = setMeta m f' (Some c))"
  by (induction fs) (auto simp del: getMeta.simps setMeta.simps)

lemma metadataStep_cases:
  "metadataStep m p = m \<or>
   (\<not> medicineRelated (normalizeClassName (classOrEmpty p)) \<and>
    (\<exists>f'. getMeta m f' = None \<and> matchesMetadataField (classOrEmpty p) f'
       \<and> metadataStep m p = setMeta m f' (Some (classOrEmpty p))))"
  using fieldLoop_cases [of m "classOrEmpty p" metadataFields]
  by (auto simp: metadataStep_def Let_def)

lemma metadataStep_keeps:
  "getMeta m g = Some v \<Longrightarrow> getMeta (metadataStep m p) g = Some v"
  using metadataStep_cases [of m p]
  by (auto simp: getMeta_setMeta simp del: getMeta.simps setMeta.simps)

lemma metadataStep_new:
  "getMeta (metadataStep m p) g = Some v \<Longrightarrow> getMeta m g = None \<Longrightarrow>
   v = classOrEmpty p \<and> \<not> medicineRelated (normalizeClassName v) \<and> matchesMetadataField v g"
  using metadataStep_cases [of m p]
  by (auto simp: getMeta_setMeta simp del: getMeta.simps setMeta.simps split: if_splits)

lemma metadataStep_consumes:
  assumes "\<not> medicineRelated (normalizeClassName (classOrEmpty p))"
    and "matchesMetadataField (classOrEmpty p) g"
    and "getMeta m g = None"
    and "getMeta (metadataStep m p) g = None"
  shows "\<exists>g' \<in> set (fieldsBefore g). getMeta (metadataStep m p) g' = Some (classOrEmpty p)"
proof -
  from fieldLoop_fills [OF all_metadataFields assms(3,2)] obtain f'
    where f': "f' \<in> set (fieldsBefore g @ [g])"
      "fieldLoop m (classOrEmpty p) metadataFields = setMeta m f' (Some (classOrEmpty p))"
    unfolding fieldsBefore_def by blast
  then have step: "metadataStep m p = setMeta m f' (Some (classOrEmpty p))"
    using assms(1) by (simp add: metadataStep_def Let_def)
  have "f' \<noteq> g" using assms(4) unfolding step by (auto simp: getMeta_setMeta simp del: getMeta.simps setMeta.simps)
  with f'(1) have "f' \<in> set (fieldsBefore g)" by auto
  then show ?thesis unfolding step by (auto simp: getMeta_setMeta simp del: getMeta.simps setMeta.simps)
qed

lemma scan_keeps:
  "getMeta m g = Some v \<Longrightarrow> getMeta (foldl metadataStep m ps) g = Some v"
  by (induction ps arbitrary: m) (simp_all add: metadataStep_keeps del: getMeta.simps)

lemma scan_None:
  "getMeta (foldl metadataStep m ps) g = None \<Longrightarrow> getMeta m g = None"
  using scan_keeps [of m g _ ps] by (cases "getMeta m g") auto

lemma scan_provenance:
  "getMeta (foldl metadataStep m ps) g = Some c \<Longrightarrow> getMeta m g = None \<Longrightarrow>
   \<exists>pre p post. ps = pre @ p # post
     \<and> classOrEmpty p = c
     \<and> \<not> medicineRelated (normalizeClassName c)
     \<and> matchesMetadataField c g
     \<and> (\<forall>q \<in> set pre. consumedBefore (foldl metadataStep m ps) g q)"
proof (induction ps arbitrary: m)
  case Nil
  then show ?case by simp
next
  case (Cons q ps)
  let ?m1 = "metadataStep m q"
  let ?final = "foldl metadataStep m (q # ps)"
  have final: "?final = foldl metadataStep ?m1 ps" by simp
  show ?case
  proof (cases "getMeta ?m1 g")
    case (Some v)
    then have "getMeta ?final g = Some v" unfolding final by (rule scan_keeps)
    with Cons.prems(1) have "v = c" by simp
    with metadataStep_new [OF Some Cons.prems(2)]
    have "classOrEmpty q = c" "\<not> medicineRelated (normalizeClassName c)"
      "matchesMetadataField c g" by auto
    then have "q # ps = [] @ q # ps \<and> classOrEmpty q = c
       \<and> \<not> medicineRelated (normalizeClassName c) \<and> matchesMetadataField c g
       \<and> (\<forall>q' \<in> set []. consumedBefore ?final g q')" by simp
    then show ?thesis by blast
  next
    case None
    from Cons.IH [OF Cons.prems(1) [unfolded final] None] obtain pre p post where
      d: "ps = pre @ p # post" "classOrEmpty p = c"
        "\<not> medicineRelated (normalizeClassName c)" "matchesMetadataField c g"
        "\<forall>q' \<in> set pre. consumedBefore (foldl metadataStep ?m1 ps) g q'"
      by blast
    have "consumedBefore ?final g q"
      unfolding consumedBefore_def
    proof (intro impI)
      assume a: "\<not> medicineRelated (normalizeClassName (classOrEmpty q)) \<and>
        matchesMetadataField (classOrEmpty q) g"
      from metadataStep_consumes [OF _ _ Cons.prems(2) None] a obtain g'
        where "g' \<in> set (fieldsBefore g)" "getMeta ?m1 g' = Some (classOrEmpty q)" by blast
      then show "\<exists>g' \<in> set (fieldsBefore g). getMeta ?final g' = Some (classOrEmpty q)"
        unfolding final using scan_keeps by blast
    qed
    then have "q # ps = (q # pre) @ p # post \<and> classOrEmpty p = c
       \<and> \<not> medicineRelated (normalizeClassName c) \<and> matchesMetadataField c g
       \<and> (\<forall>q' \<in> set (q # pre). consumedBefore ?final g q')"
      using d unfolding final by simp
    then show ?thesis by blast
  qed
qed

lemma getMeta_emptyMetadata: "getMeta emptyMetadata g = None"
  by (cases g) (simp_all add: emptyMetadata_def)

lemma confidenceDesc_le:
  "confidenceDesc a b \<le> 0 \<longleftrightarrow> - num (confidence a) \<le> - num (confidence b)"
  unfolding confidenceDesc_def num_def by (simp only: fsub_doubles_le_0_iff neg_le_iff_le)

lemma sortBy_confidenceDesc:
  "sortBy confidenceDesc ps = sort_key (\<lambda>p. - num (confidence p)) ps"
  by (rule sortBy_key) (rule confidenceDesc_le)

lemma confidence_descending:
  assumes "sortBy confidenceDesc ps = pre @ p # post"
  shows "\<forall>q \<in> set pre. num (confidence p) \<le> num (confidence q)"
proof -
  have "sorted (map (\<lambda>p. - num (confidence p)) (pre @ p # post))"
    using assms [symmetric] by (simp add: sortBy_confidenceDesc)
  then show ?thesis by (auto simp: sorted_append)
qed

lemma fieldLoop_find:
  "fieldLoop m c fs =
     (case find (\<lambda>f. getMeta m f = None \<and> matchesMetadataField c f) fs of
        None \<Rightarrow> m
      | Some f \<Rightarrow> setMeta m f (Some c))"
  by (induction fs) (simp_all del: getMeta.simps setMeta.simps)

lemma metadataStep_spec: "metadataStep m p = specMetadataStep m p"
  by (simp add: metadataStep_def specMetadataStep_def firstEmptyMatch_def fieldLoop_find Let_def)

lemma find_conj:
  "find P xs = Some g \<Longrightarrow> Q g \<Longrightarrow> find (\<lambda>f. Q f \<and> P f) xs = Some g"
  by (induction xs) (auto split: if_splits)

lemma metadataStep_fills:
  assumes "\<not> medicineRelated (normalizeClassName (classOrEmpty p))"
    and "find (matchesMetadataField (classOrEmpty p)) metadataFields = Some g"
  shows "getMeta (metadataStep m p) g \<noteq> None"
proof (cases "getMeta m g")
  case None
  from find_conj [OF assms(2), of "\<lambda>f. getMeta m f = None"] None
  have "firstEmptyMatch m p = Some g" by (simp add: firstEmptyMatch_def)
  then show ?thesis
    using assms(1)
    by (simp add: metadataStep_spec specMetadataStep_def getMeta_setMeta
        del: getMeta.simps setMeta.simps)
next
  case (Some v)
  then show ?thesis using metadataStep_keeps [of m g v p] by simp
qed

lemma scan_fills:
  assumes "p \<in> set ps"
    and "\<not> medicineRelated (normalizeClassName (classOrEmpty p))"
    and "find (matchesMetadataField (classOrEmpty p)) metadataFields = Some g"
  shows "getMeta (foldl metadataStep m ps) g \<noteq> None"
  using assms(1)
proof (induction ps arbitrary: m)
  case Nil
  then show ?case by simp
next
  case (Cons q ps)
  show ?case
  proof (cases "q = p")
    case True
    from metadataStep_fills [OF assms(2,3), of m] obtain v
      where "getMeta (metadataStep m p) g = Some v" by auto
    then show ?thesis using True scan_keeps [of "metadataStep m p" g v ps] by simp
  next
    case False
    with Cons.prems have "p \<in> set ps" by simp
    from Cons.IH [OF this] show ?thesis by simp
  qed
qed

lemma filledFields_setMeta:
  "getMeta m f = None \<Longrightarrow> length (filledFields (setMeta m f (Some c))) = length (filledFields m) + 1"
  by (cases f) (simp_all add: filledFields_def metadataFields_def)

lemma metadataStep_count:
  "length (filledFields (metadataStep m p))
     \<le> length (filledFields m) + (if metadataSource p then 1 else 0)"
proof -
  from metadataStep_cases [of m p] show ?thesis
  proof
    assume "metadataStep m p = m"
    then show ?thesis by simp
  next
    assume a: "\<not> medicineRelated (normalizeClassName (classOrEmpty p)) \<and>
      (\<exists>f'. getMeta m f' = None \<and> matchesMetadataField (classOrEmpty p) f'
         \<and> metadataStep m p = setMeta m f' (Some (classOrEmpty p)))"
    then obtain f' where f': "getMeta m f' = None" "matchesMetadataField (classOrEmpty p) f'"
      "metadataStep m p = setMeta m f' (Some (classOrEmpty p))" by blast
    have "metadataSource p"
      using a f'(2) all_metadataFields [of f'] by (auto simp: metadataSource_def list_ex_iff)
    then show ?thesis using filledFields_setMeta [OF f'(1)] f'(3) by simp
  qed
qed

lemma scan_count:
  "length (filledFields (foldl metadataStep m ps))
     \<le> length (filledFields m) + length (filter metadataSource ps)"
proof (induction ps arbitrary: m)
  case Nil
  then show ?case by simp
next
  case (Cons q ps)
  have "length (filledFields (foldl metadataStep (metadataStep m q) ps))
      \<le> length (filledFields (metadataStep m q)) + length (filter metadataSource ps)"
    by (rule Cons.IH)
  also have "\<dots> \<le> length (filledFields m) + (if metadataSource q then 1 else 0)
      + length (filter metadataSource ps)"
    using metadataStep_count [of m q] by simp
  finally show ?case by (simp split: if_splits)
qed

lemma length_filter_sortBy: "length (filter P (sortBy cmp xs)) = length (filter P xs)"
proof -
  have "mset (filter P (sortBy cmp xs)) = mset (filter P xs)"
    by (simp add: mset_sortBy)
  then show ?thesis by (metis size_mset)
qed

lemma filledFields_emptyMetadata: "filledFields emptyMetadata = []"
  by (simp add: filledFields_def metadataFields_def emptyMetadata_def)

lemma extractMetadata_count:
  "length (filledFields (extractMetadata ps)) \<le> length (filter metadataSource ps)"
  using scan_count [of emptyMetadata "sortBy confidenceDesc ps"]
  by (simp add: extractMetadata_def filledFields_emptyMetadata length_filter_sortBy)

lemma extractMetadata_spec:
  "extractMetadata ps =
     foldl specMetadataStep emptyMetadata (sort_key (\<lambda>p. - num (confidence p)) ps)"
proof -
  have "metadataStep = specMetadataStep" by (intro ext) (rule metadataStep_spec)
  then show ?thesis by (simp add: extractMetadata_def sortBy_confidenceDesc)
qed

lemma keepsMedicine_iff:
  "keepsMedicine p \<longleftrightarrow> \<not> metadataSource p"
  by (auto simp: keepsMedicine_def metadataSource_def matchesMetadataField_def Let_def
      metadataFields_def)

lemma metadataSource_label:
  "classOrEmpty p = classOrEmpty q \<Longrightarrow> metadataSource p = metadataSource q"
  by (simp add: metadataSource_def)

lemma extractMetadata_source:
  assumes "getMeta (extractMetadata ps) g = Some c"
  shows "\<exists>p \<in> set ps. classOrEmpty p = c \<and> metadataSource p"
proof -
  from scan_provenance [OF assms [unfolded extractMetadata_def] getMeta_emptyMetadata]
  obtain pre p post where d: "sortBy confidenceDesc ps = pre @ p # post"
    "classOrEmpty p = c" "\<not> medicineRelated (normalizeClassName c)" "matchesMetadataField c g"
    by blast
  have "p \<in> set (sortBy confidenceDesc ps)" unfolding d(1) by simp
  then have "p \<in> set ps" by (simp add: set_sortBy)
  moreover have "metadataSource p"
    using d(2-4) all_metadataFields [of g] by (auto simp: metadataSource_def list_ex_iff)
  ultimately show ?thesis using d(2) by blast
qed

lemma medicineRefs_keeps:
  "r \<in> set (medicineRefs input) \<Longrightarrow> keepsMedicine (heapOf (convertToBboxFormat input) r)"
  by (simp add: medicineRefs_def filterMedicinePredictions_def)

lemma customer_name_source:
  "cls p = Some ''Customer Name'' \<Longrightarrow> metadataSource p"
proof -
  assume "cls p = Some ''Customer Name''"
  then have c: "classOrEmpty p = ''Customer Name''" by (simp add: classOrEmpty_def)
  have "\<not> medicineRelated (normalizeClassName ''Customer Name'')" by code_simp
  moreover have "list_ex (\<lambda>f. matchesMetadataField ''Customer Name'' f) metadataFields"
    by code_simp
  ultimately show ?thesis by (simp add: metadataSource_def c)
qed

subsection \<open>The rows depend on the detections of the input only\<close>

lemma partitionLoop_cong:
  "\<forall>r \<in> set ps. h r = h' r \<Longrightarrow> partitionLoop h ps acc = partitionLoop h' ps acc"
proof (induction ps arbitrary: acc)
  case Nil
  then show ?case by (cases acc) simp
next
  case (Cons p ps)
  then show ?case by (cases acc) (simp split: option.splits)
qed

lemma insertBy_cong:
  "(\<And>b. b \<in> set xs \<Longrightarrow> cmp a b = cmp' a b) \<Longrightarrow> insertBy cmp a xs = insertBy cmp' a xs"
  by (induction xs) auto

lemma sortBy_cong:
  "(\<And>a b. a \<in> set xs \<Longrightarrow> b \<in> set xs \<Longrightarrow> cmp a b = cmp' a b) \<Longrightarrow>
   sortBy cmp xs = sortBy cmp' xs"
proof (induction xs)
  case Nil
  then show ?case by (simp add: sortBy_def)
next
  case (Cons x xs)
  then have ih: "sortBy cmp xs = sortBy cmp' xs" by simp
  have "insertBy cmp x (sortBy cmp' xs) = insertBy cmp' x (sortBy cmp' xs)"
    by (rule insertBy_cong) (simp add: set_sortBy Cons.prems)
  then show ?case by (simp add: sortBy_Cons ih)
qed

lemma findNearestAnchor_cong:
  assumes "\<forall>r \<in> set as. h r = h' r"
  shows "findNearestAnchor h p as = findNearestAnchor h' p as"
proof -
  have "foldl (nearestStep h c) st as = foldl (nearestStep h' c) st as" for c st
    using assms by (intro foldl_cong) (auto simp: nearestStep_def)
  then show ?thesis by (simp add: findNearestAnchor_def)
qed

lemma predictionsByAnchor_cong:
  assumes "\<forall>r \<in> set as. h r = h' r" and "\<forall>r \<in> set ns. h r = h' r"
  shows "predictionsByAnchor h as ns = predictionsByAnchor h' as ns"
proof -
  have "assignStep h as m p = assignStep h' as m p" if "p \<in> set ns" for m p
    using that assms(2) findNearestAnchor_cong [OF assms(1)] by (simp add: assignStep_def)
  then show ?thesis
    unfolding predictionsByAnchor_def by (intro foldl_cong) auto
qed

lemma bucketLoop_cong:
  "\<forall>r \<in> set ps. h r = h' r \<Longrightarrow> bucketLoop h ps m = bucketLoop h' ps m"
  by (induction ps arbitrary: m) (simp_all split: sum.splits option.splits)

lemma confidenceCmp_cong:
  "h a = h' a \<Longrightarrow> h b = h' b \<Longrightarrow> confidenceCmp h a b = confidenceCmp h' a b"
  by (simp add: confidenceCmp_def Let_def cong: if_cong)

lemma centerCmp_cong:
  "h a = h' a \<Longrightarrow> h b = h' b \<Longrightarrow> centerCmp h a b = centerCmp h' a b"
  by (simp add: centerCmp_def)

lemma assignField_cong:
  assumes "\<forall>r \<in> set (lookupOrEmpty m f). h r = h' r"
  shows "assignField h m row f = assignField h' m row f"
proof -
  have s: "sortBy (confidenceCmp h) (lookupOrEmpty m f) = sortBy (confidenceCmp h') (lookupOrEmpty m f)"
    using assms by (intro sortBy_cong confidenceCmp_cong) auto
  have "h w = h' w" if "sortBy (confidenceCmp h') (lookupOrEmpty m f) = w # rest" for w rest
    using assms that by (metis list.set_intros(1) set_sortBy)
  then show ?thesis
    unfolding assignField_lookup s by (auto split: list.splits)
qed

lemma fillRow_cong:
  assumes "\<forall>r \<in> set assigned. h r = h' r"
  shows "fillRow h row assigned = fillRow h' row assigned"
proof (cases "bucketLoop h assigned []")
  case (Inl e)
  then show ?thesis using bucketLoop_cong [OF assms, of "[]"] by (simp add: fillRow_def)
next
  case (Inr m)
  from bucketLoop_error [OF Inr] bucketLoop_ok [of assigned h "[]"] Inr
  have l: "lookupOrEmpty m f = candidates h assigned f" for f
    by (auto simp: lookupOrEmpty_def)
  have "assignField h m r f = assignField h' m r f" for r f
    by (rule assignField_cong) (use assms in \<open>auto simp: l candidates_def\<close>)
  then have "foldl (assignField h m) row fieldPriority = foldl (assignField h' m) row fieldPriority"
    by (intro foldl_cong) auto
  then show ?thesis
    using Inr bucketLoop_cong [OF assms, of "[]"] by (simp add: fillRow_def)
qed

lemma fillLoop_cong:
  "\<forall>(a, g) \<in> set entries. \<forall>p \<in> set g. h p = h' p \<Longrightarrow>
   fillLoop h t entries rows = fillLoop h' t entries rows"
proof (induction entries arbitrary: rows)
  case Nil
  then show ?case by simp
next
  case (Cons e entries)
  obtain a g where e: "e = (a, g)" by (cases e)
  from Cons.prems e have g: "\<forall>p \<in> set g. h p = h' p"
    and rest: "\<forall>(a, g) \<in> set entries. \<forall>p \<in> set g. h p = h' p" by auto
  show ?case
    using Cons.IH [OF rest] fillRow_cong [OF g] e
    by (simp split: option.splits sum.splits)
qed

lemma finalCmp_cong:
  assumes "\<forall>r \<in> set as. h r = h' r"
  shows "finalCmp h as = finalCmp h' as"
proof -
  have f: "findAnchor h as row = findAnchor h' as row" for row
    unfolding findAnchor_def using assms by (intro find_cong) auto
  have "h a = h' a" if "findAnchor h' as row = Some a" for a row
    using that assms by (auto simp: findAnchor_def find_Some_iff)
  then show ?thesis
    by (intro ext) (auto simp: finalCmp_def f split: option.splits)
qed

lemma fallbackLoop_cong:
  "\<forall>r \<in> set ps. h r = h' r \<Longrightarrow> fallbackLoop h ps row = fallbackLoop h' ps row"
  by (induction ps arbitrary: row) (simp_all split: sum.splits option.splits)

lemma groupByRowCaptain_cong:
  assumes "\<forall>r \<in> set ps. h r = h' r"
  shows "groupByRowCaptain h ps = groupByRowCaptain h' ps"
proof -
  have part: "partitionLoop h ps ([], []) = partitionLoop h' ps ([], [])"
    by (rule partitionLoop_cong [OF assms])
  then have an: "anchorsOf h' ps = anchorsOf h ps" and nn: "nonAnchorsOf h' ps = nonAnchorsOf h ps"
    by (simp_all add: anchorsOf_def nonAnchorsOf_def)
  have sub: "set (anchorsOf h ps) \<subseteq> set ps" "set (nonAnchorsOf h ps) \<subseteq> set ps"
    by (auto simp: anchorsOf_filter nonAnchorsOf_filter)
  show ?thesis
  proof (cases "ps = [] \<or> anchorsOf h ps = []")
    case True
    then show ?thesis
      using an fallbackLoop_cong [OF assms, of emptyRow]
      by (cases "ps = []") (auto simp: groupByRowCaptain_Nil groupByRowCaptain_fallback)
  next
    case False
    have sa: "sortedAnchors h' ps = sortedAnchors h ps"
      unfolding sortedAnchors_def an
      by (intro sortBy_cong centerCmp_cong) (use assms sub in auto)
    have as: "\<forall>r \<in> set (sortedAnchors h ps). h r = h' r"
      using assms sub by (auto simp: sortedAnchors_def set_sortBy)
    have ns: "\<forall>r \<in> set (nonAnchorsOf h ps). h r = h' r" using assms sub by auto
    have pb: "predictionsByAnchor h' (sortedAnchors h ps) (nonAnchorsOf h ps)
        = predictionsByAnchor h (sortedAnchors h ps) (nonAnchorsOf h ps)"
      by (rule predictionsByAnchor_cong [OF as ns, symmetric])
    have ent: "\<forall>(a, g) \<in> set (predictionsByAnchor h (sortedAnchors h ps) (nonAnchorsOf h ps)).
        \<forall>p \<in> set g. h p = h' p"
      using group_members [of _ _ h "sortedAnchors h ps" "nonAnchorsOf h ps"] ns
      by (fastforce simp: groupOf_def)
    have fr: "filledRows h' ps = filledRows h ps"
      unfolding filledRows_def sa nn pb by (rule fillLoop_cong [OF ent, symmetric])
    show ?thesis
      using False an sa fr finalCmp_cong [OF as]
      by (simp add: groupByRowCaptain_normal split: sum.splits)
  qed
qed

section \<open>Properties\<close>

subsection \<open>C1: one row per anchor, in the order of the anchors\<close>

text \<open>
  C1. With at least one anchor, \<open>groupByRowCaptain\<close> returns one row per anchor, ordered
  by the vertical center of the anchors. The number of rows is right
  (\<open>groupByRowCaptain_length\<close>), and so is the order when no anchor is labelled like a
  placeholder name (\<open>groupByRowCaptain_order\<close>). The final \<^verbatim>\<open>rows.sort\<close> breaks
  the order otherwise: its comparator looks up, for a row, an anchor whose class label
  equals the row's placeholder name. Two anchors labelled \<open>Medicine 2\<close> (center 10) and
  \<open>Medicine 1\<close> (center 20), each with a quantity beside it (\<open>clashBill\<close>): the
  rows are built upper anchor first; the row of the upper anchor
  (quantity \<open>A\<close>) is named \<open>Medicine 1\<close>, the comparator finds for it the anchor
  labelled \<open>Medicine 1\<close>, which is the lower one, and the rows come out lower anchor
  first.
\<close>

theorem groupByRowCaptain_final_sort_misorders:
  "sortedAnchors clashBill [0, 1, 2, 3] = [0, 1]
   \<and> center clashBill 0 = 10
   \<and> center clashBill 1 = 20
   \<and> filledRows clashBill [0, 1, 2, 3]
     = Inr [\<lparr>medName = Some ''Medicine 1'', batchExp = None, quantity = Some ''A'',
              hsnCode = None, amount = None\<rparr>,
            \<lparr>medName = Some ''Medicine 2'', batchExp = None, quantity = Some ''B'',
              hsnCode = None, amount = None\<rparr>]
   \<and> groupByRowCaptain clashBill [0, 1, 2, 3]
     = Inr [\<lparr>medName = Some ''Medicine 2'', batchExp = None, quantity = Some ''B'',
              hsnCode = None, amount = None\<rparr>,
            \<lparr>medName = Some ''Medicine 1'', batchExp = None, quantity = Some ''A'',
              hsnCode = None, amount = None\<rparr>]"
  by code_simp

subsection \<open>C2: the name of a row\<close>

text \<open>
  C2, as stated: the placeholder name of a row is overwritten whenever a detection assigned
  to the row carries an extracted value. It is not: the loop over the field slots skips
  \<open>medName\<close>. Here the anchor carries the value \<open>Crocin\<close>, and two detections with
  values are assigned to its row, one of them (\<open>the medname\<close>) classified as a medicine
  name without being an anchor; the name of the row stays \<open>Medicine 1\<close>.
\<close>

theorem medName_overwritten_counterexample:
  "getFieldName ''the medname'' = Some MedNameF
   \<and> \<not> isAnchorClass ''the medname''
   \<and> groupByRowCaptain
       (heapOf [detection (Some ''Med Name'') 0 100 (9 / 10) (Some ''Crocin''),
                detection (Some ''the medname'') 20 100 (9 / 10) (Some ''Paracetamol''),
                detection (Some ''Quantity'') 40 100 (9 / 10) (Some ''5'')])
       [0, 1, 2]
     = Inr [\<lparr>medName = Some ''Medicine 1'', batchExp = None, quantity = Some ''5'',
              hsnCode = None, amount = None\<rparr>]"
  by code_simp

text \<open>
  C2, amended: with at least one anchor, the call returns, the row built for the \<open>k\<close>-th
  anchor of the ascending sort (counted from 0) is named \<open>Medicine k+1\<close>, and no
  detection changes that name: the rows returned are these rows, up to the order that the
  final sort gives them.
\<close>

theorem medName_is_placeholder:
  assumes "anchorsOf h ps \<noteq> []"
  shows "\<exists>filled rows.
           filledRows h ps = Inr filled
         \<and> map medName filled =
             map (\<lambda>i. Some (placeholderName i)) [0..<length (anchorsOf h ps)]
         \<and> groupByRowCaptain h ps = Inr rows
         \<and> mset rows = mset filled"
proof -
  from filledRows_medName [of h ps] obtain filled where f: "filledRows h ps = Inr filled"
    "map medName filled = map (\<lambda>i. Some (placeholderName i)) [0..<length (anchorsOf h ps)]"
    by blast
  have "groupByRowCaptain h ps = Inr (sortBy (finalCmp h (sortedAnchors h ps)) filled)"
    using f(1) assms by (simp add: groupByRowCaptain_normal)
  then show ?thesis using f by (auto simp: mset_sortBy)
qed

text \<open>C2 at the input \<open>namedBill\<close>, where the anchor and both detections of its
  row carry values.\<close>

theorem medName_is_placeholder_witness:
  "anchorsOf namedBill [0, 1, 2] \<noteq> []
   \<and> (\<exists>filled rows.
          filledRows namedBill [0, 1, 2] = Inr filled
        \<and> map medName filled = [Some ''Medicine 1'']
        \<and> groupByRowCaptain namedBill [0, 1, 2] = Inr rows
        \<and> mset rows = mset filled)"
proof -
  have a: "anchorsOf namedBill [0, 1, 2] \<noteq> []" by code_simp
  have n: "map (\<lambda>i. Some (placeholderName i)) [0..<length (anchorsOf namedBill [0, 1, 2])]
             = [Some ''Medicine 1'']"
    by code_simp
  show ?thesis using a medName_is_placeholder [OF a] unfolding n by simp
qed

subsection \<open>C3: no exception\<close>

text \<open>
  C3. \<open>groupByRowCaptain\<close> never raises, and a detection without a class label is
  skipped. The first loop skips it; the loop of the zero-anchor branch runs over the whole
  input again and calls \<^verbatim>\<open>getFieldName\<close> on the absent label, which raises. The input
  is one detection without a class label. The call raises in exactly this situation
  (\<open>groupByRowCaptain_raises_iff\<close>): a non-empty input without anchors that holds a
  detection whose class label is absent. An empty input gives the empty list
  (\<open>groupByRowCaptain_Nil\<close>), and a label that is the empty string raises nothing.
\<close>

theorem groupByRowCaptain_raises_without_class:
  "groupByRowCaptain (heapOf [detection None 0 0 (9 / 10) None]) [0] = Inl TypeError"
  by code_simp

subsection \<open>C4: the nearest anchor\<close>

text \<open>
  C4. Every non-anchor detection is assigned to its nearest anchor, with the preference
  for the anchor above inside the 5-unit window. Distances, and the difference of two
  distances that is compared with 5, are the doubles that the program computes. Five parts.
  \<^item> With at least one anchor, a non-anchor detection \<open>p\<close> has an anchor \<open>a\<close> that
    \<open>findNearestAnchor\<close> returns for it on the sorted anchors; \<open>p\<close> is in the group of
    \<open>a\<close> and in the group of no other anchor; every anchor that is nearer than \<open>a\<close> is
    within the window of \<open>a\<close>; and \<open>a\<close> is strictly nearer than every anchor above it.
  \<^item> When no anchor object occurs twice in the input and the classifier maps \<open>p\<close> to the
    slot \<open>f\<close> (not the name), \<open>p\<close> is a candidate of slot \<open>f\<close> in the row of the
    \<open>k\<close>-th anchor exactly when that anchor is the one returned for \<open>p\<close>, and the slot
    of that row is picked from its candidates.
  \<^item> On every list of anchors, \<open>findNearestAnchor\<close> computes the scan that the
    specification words (\<open>nearestBySpec\<close>).
  \<^item> Anchors at vertical centers 100 and 106 and a quantity at 103: the quantity goes to
    the row of the anchor at 100.
  \<^item> Anchors at 0 and 5.2 and a quantity at 5.1 (\<open>windowEdgeBill\<close>): the anchor at 5.2 is
    nearer, the computed difference of the distances is inside the window, and the
    quantity goes to the row of the anchor at 0.
\<close>

theorem nearest_anchor_assignment:
  "(anchorsOf h ps \<noteq> [] \<and> p \<in> set (nonAnchorsOf h ps) \<longrightarrow>
      (\<exists>a \<in> set (sortedAnchors h ps).
          findNearestAnchor h (h p) (sortedAnchors h ps) = Some a
        \<and> (\<exists>g. map_of (predictionsByAnchor h (sortedAnchors h ps) (nonAnchorsOf h ps)) a
                    = Some g \<and> p \<in> set g)
        \<and> (\<forall>b g. map_of (predictionsByAnchor h (sortedAnchors h ps) (nonAnchorsOf h ps)) b
                    = Some g \<longrightarrow> (p \<in> set g \<longleftrightarrow> b = a))
        \<and> (\<forall>b \<in> set (sortedAnchors h ps).
              distanceTo h (h p) a \<le> distanceTo h (h p) b
              \<or> within5 (distanceTo h (h p) b) (distanceTo h (h p) a))
        \<and> (\<forall>b \<in> set (sortedAnchors h ps).
              center h b < center h a \<longrightarrow> distanceTo h (h p) a < distanceTo h (h p) b)))
   \<and> (distinct (anchorsOf h ps) \<and> k < length (sortedAnchors h ps) \<and>
        p \<in> set (nonAnchorsOf h ps) \<and> fieldNameOf (h p) = Inr (Some f) \<and> f \<noteq> MedNameF \<longrightarrow>
        (\<exists>filled rows.
            filledRows h ps = Inr filled
          \<and> groupByRowCaptain h ps = Inr rows
          \<and> mset rows = mset filled
          \<and> getField (filled ! k) f = pick h None f (slotCandidates h ps k f)
          \<and> (p \<in> set (slotCandidates h ps k f) \<longleftrightarrow>
               findNearestAnchor h (h p) (sortedAnchors h ps)
                 = Some (sortedAnchors h ps ! k))))
   \<and> findNearestAnchor h' q as = nearestBySpec h' q as
   \<and> groupByRowCaptain
       (heapOf [detection (Some ''Med Name'') 0 100 (9 / 10) None,
                detection (Some ''Med Name'') 0 106 (9 / 10) None,
                detection (Some ''Quantity'') 50 103 (9 / 10) None])
       [0, 1, 2]
     = Inr [\<lparr>medName = Some ''Medicine 1'', batchExp = None, quantity = Some ''1'',
              hsnCode = None, amount = None\<rparr>,
            \<lparr>medName = Some ''Medicine 2'', batchExp = None, quantity = None,
              hsnCode = None, amount = None\<rparr>]
   \<and> distanceTo windowEdgeBill (windowEdgeBill 2) 1 < distanceTo windowEdgeBill (windowEdgeBill 2) 0
   \<and> within5 (distanceTo windowEdgeBill (windowEdgeBill 2) 1)
        (distanceTo windowEdgeBill (windowEdgeBill 2) 0)
   \<and> groupByRowCaptain windowEdgeBill [0, 1, 2]
     = Inr [\<lparr>medName = Some ''Medicine 1'', batchExp = None, quantity = Some ''1'',
              hsnCode = None, amount = None\<rparr>,
            \<lparr>medName = Some ''Medicine 2'', batchExp = None, quantity = None,
              hsnCode = None, amount = None\<rparr>]"
proof (intro conjI impI)
  assume hyp: "anchorsOf h ps \<noteq> [] \<and> p \<in> set (nonAnchorsOf h ps)"
  let ?as = "sortedAnchors h ps" and ?ns = "nonAnchorsOf h ps"
  have ne: "?as \<noteq> []" using hyp by (simp add: sortedAnchors_def sortBy_Nil_iff)
  have srt: "sorted (map (center h) ?as)"
    by (simp add: sortedAnchors_def sorted_centers_sortBy)
  from nearestBySpec_sorted [OF ne srt, of "h p"] obtain a where a: "a \<in> set ?as"
    "nearestBySpec h (h p) ?as = Some a"
    "\<forall>b \<in> set ?as. distanceTo h (h p) a \<le> distanceTo h (h p) b
        \<or> within5 (distanceTo h (h p) b) (distanceTo h (h p) a)"
    "\<forall>b \<in> set ?as. center h b < center h a \<longrightarrow> distanceTo h (h p) a < distanceTo h (h p) b"
    by blast
  have f: "findNearestAnchor h (h p) ?as = Some a" using a(2) by (simp add: findNearestAnchor_spec)
  have own: "\<exists>g. map_of (predictionsByAnchor h ?as ?ns) a = Some g \<and> p \<in> set g"
    using a(1) hyp f by (simp add: map_of_predictionsByAnchor groupOf_def)
  have "p \<in> set g \<longleftrightarrow> b = a" if "map_of (predictionsByAnchor h ?as ?ns) b = Some g" for b g
    using that hyp f by (auto simp: map_of_predictionsByAnchor groupOf_def split: if_splits)
  then show "\<exists>a \<in> set ?as.
          findNearestAnchor h (h p) ?as = Some a
        \<and> (\<exists>g. map_of (predictionsByAnchor h ?as ?ns) a = Some g \<and> p \<in> set g)
        \<and> (\<forall>b g. map_of (predictionsByAnchor h ?as ?ns) b = Some g \<longrightarrow> (p \<in> set g \<longleftrightarrow> b = a))
        \<and> (\<forall>b \<in> set ?as. distanceTo h (h p) a \<le> distanceTo h (h p) b
              \<or> within5 (distanceTo h (h p) b) (distanceTo h (h p) a))
        \<and> (\<forall>b \<in> set ?as. center h b < center h a \<longrightarrow> distanceTo h (h p) a < distanceTo h (h p) b)"
    using a f own by blast
next
  assume hyp: "distinct (anchorsOf h ps) \<and> k < length (sortedAnchors h ps) \<and>
        p \<in> set (nonAnchorsOf h ps) \<and> fieldNameOf (h p) = Inr (Some f) \<and> f \<noteq> MedNameF"
  from rows_of_anchors [of h ps k] hyp obtain filled rows where
    r: "filledRows h ps = Inr filled" "groupByRowCaptain h ps = Inr rows"
      "mset rows = mset filled"
      "\<forall>f. f \<noteq> MedNameF \<longrightarrow> getField (filled ! k) f = pick h None f (slotCandidates h ps k f)"
    by blast
  have m: "p \<in> set (slotCandidates h ps k f) \<longleftrightarrow>
             findNearestAnchor h (h p) (sortedAnchors h ps) = Some (sortedAnchors h ps ! k)"
    using hyp by (auto simp: slotCandidates_def candidates_def groupOf_def)
  show "\<exists>filled rows.
            filledRows h ps = Inr filled
          \<and> groupByRowCaptain h ps = Inr rows
          \<and> mset rows = mset filled
          \<and> getField (filled ! k) f = pick h None f (slotCandidates h ps k f)
          \<and> (p \<in> set (slotCandidates h ps k f) \<longleftrightarrow>
               findNearestAnchor h (h p) (sortedAnchors h ps)
                 = Some (sortedAnchors h ps ! k))"
    using r m hyp by blast
next
  show "findNearestAnchor h' q as = nearestBySpec h' q as" by (rule findNearestAnchor_spec)
next
  show "groupByRowCaptain
       (heapOf [detection (Some ''Med Name'') 0 100 (9 / 10) None,
                detection (Some ''Med Name'') 0 106 (9 / 10) None,
                detection (Some ''Quantity'') 50 103 (9 / 10) None])
       [0, 1, 2]
     = Inr [\<lparr>medName = Some ''Medicine 1'', batchExp = None, quantity = Some ''1'',
              hsnCode = None, amount = None\<rparr>,
            \<lparr>medName = Some ''Medicine 2'', batchExp = None, quantity = None,
              hsnCode = None, amount = None\<rparr>]"
    by code_simp
next
  show "distanceTo windowEdgeBill (windowEdgeBill 2) 1
          < distanceTo windowEdgeBill (windowEdgeBill 2) 0"
    by code_simp
next
  show "within5 (distanceTo windowEdgeBill (windowEdgeBill 2) 1)
        (distanceTo windowEdgeBill (windowEdgeBill 2) 0)"
    by code_simp
next
  show "groupByRowCaptain windowEdgeBill [0, 1, 2]
     = Inr [\<lparr>medName = Some ''Medicine 1'', batchExp = None, quantity = Some ''1'',
              hsnCode = None, amount = None\<rparr>,
            \<lparr>medName = Some ''Medicine 2'', batchExp = None, quantity = None,
              hsnCode = None, amount = None\<rparr>]"
    by code_simp
qed

text \<open>C4 at \<open>tieBreakBill\<close>: the anchor found for the quantity is the one at center 100,
  the quantity is in its group, and it is the candidate of the quantity slot of the first
  row.\<close>

theorem nearest_anchor_assignment_witness:
  "anchorsOf tieBreakBill [0, 1, 2] \<noteq> []
   \<and> 2 \<in> set (nonAnchorsOf tieBreakBill [0, 1, 2])
   \<and> distinct (anchorsOf tieBreakBill [0, 1, 2])
   \<and> 0 < length (sortedAnchors tieBreakBill [0, 1, 2])
   \<and> fieldNameOf (tieBreakBill 2) = Inr (Some QuantityF)
   \<and> QuantityF \<noteq> MedNameF
   \<and> (\<exists>a \<in> set (sortedAnchors tieBreakBill [0, 1, 2]).
          findNearestAnchor tieBreakBill (tieBreakBill 2) (sortedAnchors tieBreakBill [0, 1, 2])
            = Some a
        \<and> center tieBreakBill a = 100
        \<and> (\<exists>g. map_of (predictionsByAnchor tieBreakBill (sortedAnchors tieBreakBill [0, 1, 2])
                          (nonAnchorsOf tieBreakBill [0, 1, 2])) a = Some g
               \<and> 2 \<in> set g))
   \<and> (\<exists>filled rows.
          filledRows tieBreakBill [0, 1, 2] = Inr filled
        \<and> groupByRowCaptain tieBreakBill [0, 1, 2] = Inr rows
        \<and> mset rows = mset filled
        \<and> getField (filled ! 0) QuantityF = Some ''1''
        \<and> 2 \<in> set (slotCandidates tieBreakBill [0, 1, 2] 0 QuantityF))"
proof -
  let ?as = "sortedAnchors tieBreakBill [0, 1, 2]"
  have a: "anchorsOf tieBreakBill [0, 1, 2] \<noteq> []" by code_simp
  have b: "2 \<in> set (nonAnchorsOf tieBreakBill [0, 1, 2])" by code_simp
  have c: "findNearestAnchor tieBreakBill (tieBreakBill 2) ?as = Some 0" by code_simp
  have d: "center tieBreakBill 0 = 100" by code_simp
  have e: "distinct (anchorsOf tieBreakBill [0, 1, 2])" by code_simp
  have k: "0 < length ?as" by code_simp
  have k0: "?as ! 0 = 0" by code_simp
  have f: "fieldNameOf (tieBreakBill 2) = Inr (Some QuantityF)" by code_simp
  have n: "QuantityF \<noteq> MedNameF" by simp
  have v: "pick tieBreakBill None QuantityF (slotCandidates tieBreakBill [0, 1, 2] 0 QuantityF)
             = Some ''1''" by code_simp
  note t = nearest_anchor_assignment [of tieBreakBill "[0, 1, 2]" 2 0 QuantityF]
  from t a b
  have "\<exists>a \<in> set ?as.
          findNearestAnchor tieBreakBill (tieBreakBill 2) ?as = Some a
        \<and> (\<exists>g. map_of (predictionsByAnchor tieBreakBill ?as
                          (nonAnchorsOf tieBreakBill [0, 1, 2])) a = Some g
               \<and> 2 \<in> set g)"
    by blast
  then have first: "\<exists>a \<in> set ?as.
          findNearestAnchor tieBreakBill (tieBreakBill 2) ?as = Some a
        \<and> center tieBreakBill a = 100
        \<and> (\<exists>g. map_of (predictionsByAnchor tieBreakBill ?as
                          (nonAnchorsOf tieBreakBill [0, 1, 2])) a = Some g
               \<and> 2 \<in> set g)"
    using c d by auto
  from t e k b f n
  have "\<exists>filled rows.
          filledRows tieBreakBill [0, 1, 2] = Inr filled
        \<and> groupByRowCaptain tieBreakBill [0, 1, 2] = Inr rows
        \<and> mset rows = mset filled
        \<and> getField (filled ! 0) QuantityF
            = pick tieBreakBill None QuantityF (slotCandidates tieBreakBill [0, 1, 2] 0 QuantityF)
        \<and> (2 \<in> set (slotCandidates tieBreakBill [0, 1, 2] 0 QuantityF) \<longleftrightarrow>
              findNearestAnchor tieBreakBill (tieBreakBill 2) ?as = Some (?as ! 0))"
    by blast
  then have second: "\<exists>filled rows.
          filledRows tieBreakBill [0, 1, 2] = Inr filled
        \<and> groupByRowCaptain tieBreakBill [0, 1, 2] = Inr rows
        \<and> mset rows = mset filled
        \<and> getField (filled ! 0) QuantityF = Some ''1''
        \<and> 2 \<in> set (slotCandidates tieBreakBill [0, 1, 2] 0 QuantityF)"
    unfolding v k0 c by blast
  show ?thesis using a b e k f n first second by blast
qed

subsection \<open>C5: the winner of a slot\<close>

text \<open>
  C5, as stated: the candidate with the highest confidence wins, unless two confidences
  differ by less than 0.01, where the one further left wins. The comparator lets the
  confidence decide only when the difference that it computes exceeds the double 0.01.
  Two quantity candidates with confidences 0.02 and 0.01 differ by exactly 0.01, not by
  less, and the difference that the program computes is the double 0.01 itself; the one
  with the lower confidence, further left, wins.
\<close>

theorem slot_winner_counterexample:
  "\<not> \<bar>(2 / 100 :: rat) - 1 / 100\<bar> < 1 / 100
   \<and> confidenceGap (detection (Some ''Quantity'') 30 100 (2 / 100) (Some ''high''))
        (detection (Some ''Quantity'') 10 100 (1 / 100) (Some ''low'')) = num (1 / 100)
   \<and> groupByRowCaptain
       (heapOf [detection (Some ''Med Name'') 0 100 (9 / 10) None,
                detection (Some ''Quantity'') 30 100 (2 / 100) (Some ''high''),
                detection (Some ''Quantity'') 10 100 (1 / 100) (Some ''low'')])
       [0, 1, 2]
     = Inr [\<lparr>medName = Some ''Medicine 1'', batchExp = None, quantity = Some ''low'',
              hsnCode = None, amount = None\<rparr>]"
  by code_simp

text \<open>
  C5, amended: when no anchor object occurs twice in the input, let \<open>w\<close> be a
  candidate of slot \<open>f\<close> (not the name) of the row of the \<open>k\<close>-th anchor that beats
  every other candidate of the slot. A candidate beats another when the difference of
  the two confidences, as the program computes it in double precision, exceeds the double
  nearest to 0.01, or when that computed difference is at most that double in magnitude
  and the candidate is further left. Then the slot of that row takes the value of \<open>w\<close>.
\<close>

theorem slot_winner:
  assumes "distinct (anchorsOf h ps)"
    and "k < length (sortedAnchors h ps)"
    and "f \<noteq> MedNameF"
    and "w \<in> set (slotCandidates h ps k f)"
    and "\<forall>c \<in> set (slotCandidates h ps k f). c \<noteq> w \<longrightarrow> beats (h w) (h c)"
  shows "\<exists>filled rows.
           filledRows h ps = Inr filled
         \<and> groupByRowCaptain h ps = Inr rows
         \<and> mset rows = mset filled
         \<and> getField (filled ! k) f = fieldValue f (h w)"
proof -
  have "\<forall>c \<in> set (slotCandidates h ps k f). c \<noteq> w \<longrightarrow>
          confidenceCmp h w c \<le> 0 \<and> confidenceCmp h c w > 0"
    using assms(5) beats_confidenceCmp [of h w] by fastforce
  from sortBy_dominant [OF assms(4) this] obtain rest
    where "sortBy (confidenceCmp h) (slotCandidates h ps k f) = w # rest"
    by (auto simp: confidenceCmp_refl)
  then have "pick h None f (slotCandidates h ps k f) = fieldValue f (h w)"
    by (simp add: pick_def)
  then show ?thesis
    using rows_of_anchors [OF assms(1,2)] assms(3) by auto
qed

text \<open>C5 at \<open>closeQuantitiesBill\<close>: the confidences 0.91 and 0.90 differ by 0.01 as
  decimals, but the difference that the program computes, 0.010000000000000009, exceeds
  the double 0.01. The quantity with confidence 0.91 beats the one with 0.90, which is
  further left, and the row takes its value.\<close>

theorem slot_winner_witness:
  "distinct (anchorsOf closeQuantitiesBill [0, 1, 2])
   \<and> 0 < length (sortedAnchors closeQuantitiesBill [0, 1, 2])
   \<and> QuantityF \<noteq> MedNameF
   \<and> slotCandidates closeQuantitiesBill [0, 1, 2] 0 QuantityF = [1, 2]
   \<and> confidenceGap (closeQuantitiesBill 1) (closeQuantitiesBill 2)
       = 45035996273705 / 4503599627370496
   \<and> num (1 / 100) = 5764607523034235 / 576460752303423488
   \<and> beats (closeQuantitiesBill 1) (closeQuantitiesBill 2)
   \<and> (\<exists>filled rows.
          filledRows closeQuantitiesBill [0, 1, 2] = Inr filled
        \<and> groupByRowCaptain closeQuantitiesBill [0, 1, 2] = Inr rows
        \<and> mset rows = mset filled
        \<and> getField (filled ! 0) QuantityF = Some ''7'')"
proof -
  have a: "distinct (anchorsOf closeQuantitiesBill [0, 1, 2])" by code_simp
  have b: "0 < length (sortedAnchors closeQuantitiesBill [0, 1, 2])" by code_simp
  have c: "QuantityF \<noteq> MedNameF" by simp
  have l: "slotCandidates closeQuantitiesBill [0, 1, 2] 0 QuantityF = [1, 2]" by code_simp
  have g: "confidenceGap (closeQuantitiesBill 1) (closeQuantitiesBill 2)
       = 45035996273705 / 4503599627370496" by code_simp
  have t: "num (1 / 100) = 5764607523034235 / 576460752303423488" by code_simp
  have w: "beats (closeQuantitiesBill 1) (closeQuantitiesBill 2)" by code_simp
  have d: "1 \<in> set (slotCandidates closeQuantitiesBill [0, 1, 2] 0 QuantityF)"
    unfolding l by simp
  have e: "\<forall>c \<in> set (slotCandidates closeQuantitiesBill [0, 1, 2] 0 QuantityF).
             c \<noteq> 1 \<longrightarrow> beats (closeQuantitiesBill 1) (closeQuantitiesBill c)"
    unfolding l using w by simp
  have v: "fieldValue QuantityF (closeQuantitiesBill 1) = Some ''7''" by code_simp
  show ?thesis using a b c l g t w slot_winner [OF a b c d e] unfolding v by blast
qed

subsection \<open>C6: the value of a slot\<close>

text \<open>
  C6, as stated: the slot takes the extracted value of the winning detection if it is
  present. The code tests the value for truthiness, and an empty string is present but not
  truthy: a quantity whose value is the empty string yields the placeholder \<open>1\<close>, not the
  value.
\<close>

theorem slot_value_counterexample:
  "groupByRowCaptain
     (heapOf [detection (Some ''Med Name'') 0 100 (9 / 10) None,
              detection (Some ''Quantity'') 30 100 (9 / 10) (Some [])])
     [0, 1]
   = Inr [\<lparr>medName = Some ''Medicine 1'', batchExp = None, quantity = Some ''1'',
            hsnCode = None, amount = None\<rparr>]"
  by code_simp

text \<open>
  C6, amended: when no anchor object occurs twice in the input, let \<open>w\<close> be the
  winning detection of slot \<open>f\<close> (not the name) of the row of the \<open>k\<close>-th anchor,
  that is the first of the slot's candidates after the sort. If \<open>w\<close> carries a non-empty
  value, the slot takes it. If its value is absent or empty, the slot takes \<open>1\<close> for
  the quantity, \<open>0\<close> for the amount, \<open>3004\<close> for the HSN code and the raw class
  label of \<open>w\<close> for batch and expiry.
\<close>

theorem slot_value:
  assumes "distinct (anchorsOf h ps)"
    and "k < length (sortedAnchors h ps)"
    and "f \<noteq> MedNameF"
    and "sortBy (confidenceCmp h) (slotCandidates h ps k f) = w # rest"
  shows "\<exists>filled rows.
           filledRows h ps = Inr filled
         \<and> groupByRowCaptain h ps = Inr rows
         \<and> mset rows = mset filled
         \<and> (\<forall>v. val (h w) = Some v \<and> v \<noteq> [] \<longrightarrow> getField (filled ! k) f = Some v)
         \<and> (val (h w) = None \<or> val (h w) = Some [] \<longrightarrow>
              (f = QuantityF \<longrightarrow> getField (filled ! k) f = Some ''1'')
            \<and> (f = AmountF \<longrightarrow> getField (filled ! k) f = Some ''0'')
            \<and> (f = HsnCodeF \<longrightarrow> getField (filled ! k) f = Some ''3004'')
            \<and> (f = BatchExpF \<longrightarrow>
                  getField (filled ! k) f = cls (h w) \<and> cls (h w) \<noteq> None))"
proof -
  have p: "pick h None f (slotCandidates h ps k f) = fieldValue f (h w)"
    using assms(4) by (simp add: pick_def)
  have "w \<in> set (slotCandidates h ps k f)"
    using assms(4) by (metis list.set_intros(1) set_sortBy)
  then have c: "cls (h w) \<noteq> None"
    by (auto simp: slotCandidates_def candidates_def fieldNameOf_def split: option.splits)
  from rows_of_anchors [OF assms(1,2)] assms(3) p obtain filled rows
    where r: "filledRows h ps = Inr filled" "groupByRowCaptain h ps = Inr rows"
      "mset rows = mset filled" and v: "getField (filled ! k) f = fieldValue f (h w)"
    by auto
  have "(\<forall>v. val (h w) = Some v \<and> v \<noteq> [] \<longrightarrow> getField (filled ! k) f = Some v)
         \<and> (val (h w) = None \<or> val (h w) = Some [] \<longrightarrow>
              (f = QuantityF \<longrightarrow> getField (filled ! k) f = Some ''1'')
            \<and> (f = AmountF \<longrightarrow> getField (filled ! k) f = Some ''0'')
            \<and> (f = HsnCodeF \<longrightarrow> getField (filled ! k) f = Some ''3004'')
            \<and> (f = BatchExpF \<longrightarrow>
                  getField (filled ! k) f = cls (h w) \<and> cls (h w) \<noteq> None))"
    unfolding v using c by (auto simp: fieldValue_def truthy_def simp del: getField.simps)
  with r show ?thesis by blast
qed

text \<open>C6 at \<open>valuesBill\<close>: beside the anchor, the quantity carries the value \<open>5\<close>; the
  amount, the HSN code and the batch carry none.\<close>

theorem slot_value_witness:
  "distinct (anchorsOf valuesBill [0, 1, 2, 3, 4])
   \<and> 0 < length (sortedAnchors valuesBill [0, 1, 2, 3, 4])
   \<and> sortBy (confidenceCmp valuesBill) (slotCandidates valuesBill [0, 1, 2, 3, 4] 0 QuantityF)
       = [1]
   \<and> sortBy (confidenceCmp valuesBill) (slotCandidates valuesBill [0, 1, 2, 3, 4] 0 AmountF)
       = [2]
   \<and> sortBy (confidenceCmp valuesBill) (slotCandidates valuesBill [0, 1, 2, 3, 4] 0 HsnCodeF)
       = [3]
   \<and> sortBy (confidenceCmp valuesBill) (slotCandidates valuesBill [0, 1, 2, 3, 4] 0 BatchExpF)
       = [4]
   \<and> (\<exists>filled rows.
          filledRows valuesBill [0, 1, 2, 3, 4] = Inr filled
        \<and> groupByRowCaptain valuesBill [0, 1, 2, 3, 4] = Inr rows
        \<and> mset rows = mset filled
        \<and> getField (filled ! 0) QuantityF = Some ''5''
        \<and> getField (filled ! 0) AmountF = Some ''0''
        \<and> getField (filled ! 0) HsnCodeF = Some ''3004''
        \<and> getField (filled ! 0) BatchExpF = Some ''Batch Exp'')"
proof -
  let ?ps = "[0, 1, 2, 3, 4] :: ref list"
  have a: "distinct (anchorsOf valuesBill ?ps)" by code_simp
  have b: "0 < length (sortedAnchors valuesBill ?ps)" by code_simp
  have q: "sortBy (confidenceCmp valuesBill) (slotCandidates valuesBill ?ps 0 QuantityF) = [1]"
    by code_simp
  have m: "sortBy (confidenceCmp valuesBill) (slotCandidates valuesBill ?ps 0 AmountF) = [2]"
    by code_simp
  have n: "sortBy (confidenceCmp valuesBill) (slotCandidates valuesBill ?ps 0 HsnCodeF) = [3]"
    by code_simp
  have e: "sortBy (confidenceCmp valuesBill) (slotCandidates valuesBill ?ps 0 BatchExpF) = [4]"
    by code_simp
  have v: "val (valuesBill 1) = Some ''5''" "val (valuesBill 2) = None"
    "val (valuesBill 3) = None" "val (valuesBill 4) = None"
    "cls (valuesBill 4) = Some ''Batch Exp''"
    by code_simp+
  from slot_value [OF a b _ q] v obtain filled rows where
    r: "filledRows valuesBill ?ps = Inr filled" "groupByRowCaptain valuesBill ?ps = Inr rows"
      "mset rows = mset filled"
    and f1: "getField (filled ! 0) QuantityF = Some ''5''"
    by auto
  from slot_value [OF a b _ m] v r(1) have f2: "getField (filled ! 0) AmountF = Some ''0''"
    by auto
  from slot_value [OF a b _ n] v r(1) have f3: "getField (filled ! 0) HsnCodeF = Some ''3004''"
    by auto
  from slot_value [OF a b _ e] v r(1)
  have f4: "getField (filled ! 0) BatchExpF = Some ''Batch Exp''"
    by auto
  show ?thesis using a b q m n e r f1 f2 f3 f4 by blast
qed

text \<open>The placeholders at work: a quantity, an amount, an HSN code and a batch without
  values beside an anchor.\<close>

lemma placeholder_substitution_example:
  "groupByRowCaptain
     (heapOf [detection (Some ''Med Name'') 0 100 (9 / 10) None,
              detection (Some ''Quantity'') 30 100 (9 / 10) None,
              detection (Some ''Amount'') 60 100 (9 / 10) None,
              detection (Some ''HSN Code'') 90 100 (9 / 10) None,
              detection (Some ''Batch Exp'') 120 100 (9 / 10) None])
     [0, 1, 2, 3, 4]
   = Inr [\<lparr>medName = Some ''Medicine 1'', batchExp = Some ''Batch Exp'',
            quantity = Some ''1'', hsnCode = Some ''3004'', amount = Some ''0''\<rparr>]"
  by code_simp

subsection \<open>C7: metadata fields\<close>

text \<open>
  C7, as stated: no metadata field is filled from a detection whose label matches a
  line-item pattern of the field classifier, and a field holds the raw label of the first
  matching detection of the confidence-descending scan. Two things differ.
  \<^item> A detection fills only the first empty field that it matches, and the scan goes on
    to the next detection. \<open>Customer Phone\<close> (confidence 0.9) matches the phone field and
    is not skipped, but it fills the name field (pattern \<open>customer\<close>); the phone
    field then takes \<open>Mobile\<close> (confidence 0.5), not the first detection that matches it.
  \<^item> The scan skips a label only when it contains one of \<open>med name\<close>, \<open>batch exp\<close>,
    \<open>quantity\<close>, \<open>hsn code\<close>, \<open>amount\<close>. \<open>Price Date\<close> is an amount for the field
    classifier (pattern \<open>price\<close>) and fills the date field.
\<close>

theorem metadata_first_match_counterexample:
  "matchesMetadataField ''Customer Phone'' CustomerPhoneF
   \<and> \<not> medicineRelated (normalizeClassName ''Customer Phone'')
   \<and> getFieldName ''Price Date'' = Some AmountF
   \<and> extractMetadata
       [detection (Some ''Customer Phone'') 0 0 (9 / 10) None,
        detection (Some ''Mobile'') 0 40 (1 / 2) None,
        detection (Some ''Price Date'') 0 80 (2 / 5) None]
     = \<lparr>customerName = Some ''Customer Phone'', customerPhone = Some ''Mobile'',
        customerAddress = None, billNumber = None, billDate = Some ''Price Date'',
        doctorName = None\<rparr>"
  by code_simp

text \<open>
  C7, amended. Under the scan in the order of descending confidence (the double that each
  confidence denotes; equal confidences keep the input order), each detection that is
  not skipped fills the first still-empty field whose patterns its label contains, and
  only that one.
  \<^item> \<open>extractMetadata\<close> is that scan, and each round of the loop is one step of it.
  \<^item> A field \<open>g\<close> that is filled holds the raw class label of a detection \<open>p\<close> whose
    normalized label contains none of the five names above and contains a pattern of
    \<open>g\<close>; the detections scanned before \<open>p\<close> have at least its confidence, and each
    of them that could have filled \<open>g\<close> as well was used for a field listed before \<open>g\<close>.
  \<^item> When a detection of the input is not skipped, the first field whose patterns its
    label contains is filled at the end.
  \<^item> No more fields are filled than there are detections that are not skipped and match
    a field.
  \<^item> A field that is filled keeps its value through the rest of the scan.
  \<^item> The scan runs over the detections of the input, each once.
\<close>

theorem metadata_first_match:
  "extractMetadata ps =
     foldl specMetadataStep emptyMetadata (sort_key (\<lambda>p. - num (confidence p)) ps)
   \<and> metadataStep m q = specMetadataStep m q
   \<and> (getMeta (extractMetadata ps) g = Some c \<longrightarrow>
      (\<exists>pre p post. sortBy confidenceDesc ps = pre @ p # post
         \<and> classOrEmpty p = c
         \<and> \<not> medicineRelated (normalizeClassName c)
         \<and> matchesMetadataField c g
         \<and> (\<forall>q \<in> set pre. num (confidence p) \<le> num (confidence q))
         \<and> (\<forall>q \<in> set pre.
               \<not> medicineRelated (normalizeClassName (classOrEmpty q)) \<and>
               matchesMetadataField (classOrEmpty q) g \<longrightarrow>
               (\<exists>g' \<in> set (fieldsBefore g).
                   getMeta (extractMetadata ps) g' = Some (classOrEmpty q)))))
   \<and> (d \<in> set ps \<and> \<not> medicineRelated (normalizeClassName (classOrEmpty d)) \<and>
        find (matchesMetadataField (classOrEmpty d)) metadataFields = Some f \<longrightarrow>
        getMeta (extractMetadata ps) f \<noteq> None)
   \<and> length (filledFields (extractMetadata ps)) \<le> length (filter metadataSource ps)
   \<and> (getMeta m g = Some c' \<longrightarrow> getMeta (foldl metadataStep m qs) g = Some c')
   \<and> mset (sortBy confidenceDesc ps) = mset ps"
proof (intro conjI impI)
  show "extractMetadata ps =
     foldl specMetadataStep emptyMetadata (sort_key (\<lambda>p. - num (confidence p)) ps)"
    by (rule extractMetadata_spec)
next
  show "metadataStep m q = specMetadataStep m q" by (rule metadataStep_spec)
next
  assume a: "getMeta (extractMetadata ps) g = Some c"
  from scan_provenance [OF a [unfolded extractMetadata_def] getMeta_emptyMetadata]
  obtain pre p post where d: "sortBy confidenceDesc ps = pre @ p # post"
    "classOrEmpty p = c" "\<not> medicineRelated (normalizeClassName c)" "matchesMetadataField c g"
    "\<forall>q \<in> set pre. consumedBefore (extractMetadata ps) g q"
    unfolding extractMetadata_def by blast
  from d(5) have "\<forall>q \<in> set pre.
               \<not> medicineRelated (normalizeClassName (classOrEmpty q)) \<and>
               matchesMetadataField (classOrEmpty q) g \<longrightarrow>
               (\<exists>g' \<in> set (fieldsBefore g).
                   getMeta (extractMetadata ps) g' = Some (classOrEmpty q))"
    unfolding consumedBefore_def by blast
  with d confidence_descending [OF d(1)]
  show "\<exists>pre p post. sortBy confidenceDesc ps = pre @ p # post
         \<and> classOrEmpty p = c
         \<and> \<not> medicineRelated (normalizeClassName c)
         \<and> matchesMetadataField c g
         \<and> (\<forall>q \<in> set pre. num (confidence p) \<le> num (confidence q))
         \<and> (\<forall>q \<in> set pre.
               \<not> medicineRelated (normalizeClassName (classOrEmpty q)) \<and>
               matchesMetadataField (classOrEmpty q) g \<longrightarrow>
               (\<exists>g' \<in> set (fieldsBefore g).
                   getMeta (extractMetadata ps) g' = Some (classOrEmpty q)))"
    by blast
next
  assume a: "d \<in> set ps \<and> \<not> medicineRelated (normalizeClassName (classOrEmpty d)) \<and>
        find (matchesMetadataField (classOrEmpty d)) metadataFields = Some f"
  then have "d \<in> set (sortBy confidenceDesc ps)" by (simp add: set_sortBy)
  from scan_fills [OF this, of f emptyMetadata] a
  show "getMeta (extractMetadata ps) f \<noteq> None" by (simp add: extractMetadata_def)
next
  show "length (filledFields (extractMetadata ps)) \<le> length (filter metadataSource ps)"
    by (rule extractMetadata_count)
next
  assume "getMeta m g = Some c'"
  then show "getMeta (foldl metadataStep m qs) g = Some c'" by (rule scan_keeps)
next
  show "mset (sortBy confidenceDesc ps) = mset ps" by (rule mset_sortBy)
qed

text \<open>C7 at \<open>phoneInput\<close>: \<open>Customer Phone\<close> is scanned first and fills the name
  field, the first field that it matches, and only that one; the phone field holds
  \<open>Mobile\<close>, and keeps it when the scan goes on over a detection labelled \<open>Phone\<close>.\<close>

theorem metadata_first_match_witness:
  "getMeta (extractMetadata phoneInput) CustomerPhoneF = Some ''Mobile''
   \<and> (\<exists>pre p post. sortBy confidenceDesc phoneInput = pre @ p # post
         \<and> classOrEmpty p = ''Mobile''
         \<and> matchesMetadataField ''Mobile'' CustomerPhoneF
         \<and> (\<forall>q \<in> set pre. num (confidence p) \<le> num (confidence q)))
   \<and> detection (Some ''Customer Phone'') 0 0 (9 / 10) None \<in> set phoneInput
   \<and> \<not> medicineRelated (normalizeClassName ''Customer Phone'')
   \<and> find (matchesMetadataField ''Customer Phone'') metadataFields = Some CustomerNameF
   \<and> getMeta (extractMetadata phoneInput) CustomerNameF \<noteq> None
   \<and> length (filledFields (extractMetadata phoneInput)) \<le> 2
   \<and> getMeta (foldl metadataStep (extractMetadata phoneInput)
                [detection (Some ''Phone'') 0 80 (1 / 10) None]) CustomerPhoneF
       = Some ''Mobile''"
proof -
  let ?d = "detection (Some ''Customer Phone'') 0 0 (9 / 10) None"
  have a: "getMeta (extractMetadata phoneInput) CustomerPhoneF = Some ''Mobile''" by code_simp
  have b: "?d \<in> set phoneInput" by (simp add: phoneInput_def)
  have l: "classOrEmpty ?d = ''Customer Phone''" by (simp add: classOrEmpty_def detection_def)
  have n: "\<not> medicineRelated (normalizeClassName ''Customer Phone'')" by code_simp
  have f: "find (matchesMetadataField ''Customer Phone'') metadataFields = Some CustomerNameF"
    by code_simp
  have s: "length (filter metadataSource phoneInput) = 2" by code_simp
  note t = metadata_first_match [of phoneInput "extractMetadata phoneInput"
      "detection (Some ''Phone'') 0 80 (1 / 10) None" CustomerPhoneF "''Mobile''"
      ?d CustomerNameF "''Mobile''" "[detection (Some ''Phone'') 0 80 (1 / 10) None]"]
  from t a
  have "\<exists>pre p post. sortBy confidenceDesc phoneInput = pre @ p # post
         \<and> classOrEmpty p = ''Mobile''
         \<and> matchesMetadataField ''Mobile'' CustomerPhoneF
         \<and> (\<forall>q \<in> set pre. num (confidence p) \<le> num (confidence q))"
    by blast
  moreover from t b n f
  have "getMeta (extractMetadata phoneInput) CustomerNameF \<noteq> None"
    unfolding l by blast
  moreover from t have "length (filledFields (extractMetadata phoneInput)) \<le> 2"
    unfolding s by blast
  moreover from t a
  have "getMeta (foldl metadataStep (extractMetadata phoneInput)
                [detection (Some ''Phone'') 0 80 (1 / 10) None]) CustomerPhoneF
       = Some ''Mobile''"
    by blast
  ultimately show ?thesis using a b n f by simp
qed

subsection \<open>C8: a detection serves the rows or the metadata, never both\<close>

text \<open>
  C8. For every input of \<open>extractBillData\<close>:
  \<^item> no detection of the medicine set is a detection that the metadata can take a value
    from, and no metadata field holds the class label of a detection of the medicine set;
  \<^item> every value of a metadata field is the label of a detection that is such a source
    (hence outside the medicine set);
  \<^item> a detection labelled \<open>Customer Name\<close> is not in the medicine set;
  \<^item> the rows of the result are computed from the medicine set, and its metadata by
    \<open>extractMetadata\<close>;
  \<^item> the rows depend on the detections of the medicine set only: a store that agrees
    with the input on them gives the same rows.
\<close>

theorem metadata_medicine_exclusive:
  "(\<forall>r \<in> set (medicineRefs input).
       \<not> metadataSource (heapOf (convertToBboxFormat input) r)
     \<and> (\<forall>g. getMeta (extractMetadata (convertToBboxFormat input)) g
              \<noteq> Some (classOrEmpty (heapOf (convertToBboxFormat input) r))))
   \<and> (getMeta (extractMetadata (convertToBboxFormat input)) g = Some c \<longrightarrow>
        (\<exists>p \<in> set (convertToBboxFormat input). classOrEmpty p = c \<and> metadataSource p))
   \<and> (i < length input \<and> raw_class (input ! i) = Some ''Customer Name'' \<longrightarrow>
        i \<notin> set (medicineRefs input))
   \<and> (extractBillData input = Inr out \<longrightarrow>
        metadata out = extractMetadata (convertToBboxFormat input)
      \<and> (\<exists>grouped.
            groupByRowCaptain (heapOf (convertToBboxFormat input)) (medicineRefs input)
              = Inr grouped
          \<and> medicines out = filter (\<lambda>row. medName row \<noteq> None) grouped))
   \<and> ((\<forall>r \<in> set (medicineRefs input). h' r = heapOf (convertToBboxFormat input) r) \<longrightarrow>
        groupByRowCaptain h' (medicineRefs input)
          = groupByRowCaptain (heapOf (convertToBboxFormat input)) (medicineRefs input))"
proof -
  let ?h = "heapOf (convertToBboxFormat input)"
  let ?md = "extractMetadata (convertToBboxFormat input)"
  have one: "\<not> metadataSource (?h r) \<and> (\<forall>g. getMeta ?md g \<noteq> Some (classOrEmpty (?h r)))"
    if r: "r \<in> set (medicineRefs input)" for r
  proof
    show ns: "\<not> metadataSource (?h r)"
      using medicineRefs_keeps [OF r] by (simp add: keepsMedicine_iff)
    show "\<forall>g. getMeta ?md g \<noteq> Some (classOrEmpty (?h r))"
    proof (intro allI notI)
      fix g' assume "getMeta ?md g' = Some (classOrEmpty (?h r))"
      from extractMetadata_source [OF this] obtain p where
        "classOrEmpty p = classOrEmpty (?h r)" "metadataSource p" by blast
      then show False using ns metadataSource_label by blast
    qed
  qed
  have two: "getMeta ?md g = Some c \<longrightarrow>
      (\<exists>p \<in> set (convertToBboxFormat input). classOrEmpty p = c \<and> metadataSource p)"
    using extractMetadata_source by blast
  have three: "i < length input \<and> raw_class (input ! i) = Some ''Customer Name'' \<longrightarrow>
      i \<notin> set (medicineRefs input)"
  proof
    assume a: "i < length input \<and> raw_class (input ! i) = Some ''Customer Name''"
    then have "cls (?h i) = Some ''Customer Name''" by (simp add: heapOf_convert)
    then have "metadataSource (?h i)" by (rule customer_name_source)
    then show "i \<notin> set (medicineRefs input)"
      using medicineRefs_keeps [of i input] by (auto simp: keepsMedicine_iff)
  qed
  have four: "extractBillData input = Inr out \<longrightarrow>
        metadata out = ?md
      \<and> (\<exists>grouped. groupByRowCaptain ?h (medicineRefs input) = Inr grouped
          \<and> medicines out = filter (\<lambda>row. medName row \<noteq> None) grouped)"
    by (auto simp: extractBillData_def Let_def split: sum.splits)
  have five: "(\<forall>r \<in> set (medicineRefs input). h' r = ?h r) \<longrightarrow>
        groupByRowCaptain h' (medicineRefs input) = groupByRowCaptain ?h (medicineRefs input)"
    using groupByRowCaptain_cong [of "medicineRefs input" h' ?h] by blast
  from one two three four five show ?thesis by blast
qed

text \<open>C8 at the end-to-end scenario of the specification: a medicine name, a quantity, an
  amount and a customer name. The customer name is left out of the medicine set and is the
  source of the only metadata value; the rows are the same when the store holds the three
  medicine detections alone.\<close>

theorem metadata_medicine_exclusive_witness:
  "raw_class (scenarioInput ! 3) = Some ''Customer Name''
   \<and> medicineRefs scenarioInput = [0, 1, 2]
   \<and> 3 \<notin> set (medicineRefs scenarioInput)
   \<and> \<not> metadataSource (heapOf (convertToBboxFormat scenarioInput) 1)
   \<and> (\<exists>p \<in> set (convertToBboxFormat scenarioInput).
         classOrEmpty p = ''Customer Name'' \<and> metadataSource p)
   \<and> groupByRowCaptain (heapOf (take 3 (convertToBboxFormat scenarioInput)))
         (medicineRefs scenarioInput)
       = groupByRowCaptain (heapOf (convertToBboxFormat scenarioInput))
           (medicineRefs scenarioInput)
   \<and> (\<exists>grouped.
         groupByRowCaptain (heapOf (convertToBboxFormat scenarioInput))
           (medicineRefs scenarioInput) = Inr grouped
       \<and> filter (\<lambda>row. medName row \<noteq> None) grouped
           = [\<lparr>medName = Some ''Medicine 1'', batchExp = None, quantity = Some ''5'',
                hsnCode = None, amount = Some ''120''\<rparr>])
   \<and> extractBillData scenarioInput =
       Inr \<lparr>medicines =
              [\<lparr>medName = Some ''Medicine 1'', batchExp = None, quantity = Some ''5'',
                 hsnCode = None, amount = Some ''120''\<rparr>],
            metadata =
              \<lparr>customerName = Some ''Customer Name'', customerPhone = None,
               customerAddress = None, billNumber = None, billDate = None,
               doctorName = None\<rparr>,
            totalMedicines = 1\<rparr>"
proof -
  let ?h = "heapOf (convertToBboxFormat scenarioInput)"
  let ?h' = "heapOf (take 3 (convertToBboxFormat scenarioInput))"
  have a: "raw_class (scenarioInput ! 3) = Some ''Customer Name''" by code_simp
  have l: "3 < length scenarioInput" by code_simp
  have r: "medicineRefs scenarioInput = [0, 1, 2]" by code_simp
  have m: "getMeta (extractMetadata (convertToBboxFormat scenarioInput)) CustomerNameF
             = Some ''Customer Name''" by code_simp
  have s: "?h' 0 = ?h 0" "?h' 1 = ?h 1" "?h' 2 = ?h 2" by code_simp+
  have e: "extractBillData scenarioInput =
       Inr \<lparr>medicines =
              [\<lparr>medName = Some ''Medicine 1'', batchExp = None, quantity = Some ''5'',
                 hsnCode = None, amount = Some ''120''\<rparr>],
            metadata =
              \<lparr>customerName = Some ''Customer Name'', customerPhone = None,
               customerAddress = None, billNumber = None, billDate = None,
               doctorName = None\<rparr>,
            totalMedicines = 1\<rparr>" by code_simp
  let ?out = "\<lparr>medicines =
              [\<lparr>medName = Some ''Medicine 1'', batchExp = None, quantity = Some ''5'',
                 hsnCode = None, amount = Some ''120''\<rparr>],
            metadata =
              \<lparr>customerName = Some ''Customer Name'', customerPhone = None,
               customerAddress = None, billNumber = None, billDate = None,
               doctorName = None\<rparr>,
            totalMedicines = 1\<rparr>"
  note t = metadata_medicine_exclusive
      [of scenarioInput CustomerNameF "''Customer Name''" 3 ?out ?h']
  from t a l have one: "3 \<notin> set (medicineRefs scenarioInput)" by blast
  from t r have two: "\<not> metadataSource (?h 1)" by simp
  from t m have three: "\<exists>p \<in> set (convertToBboxFormat scenarioInput).
         classOrEmpty p = ''Customer Name'' \<and> metadataSource p" by blast
  have agree: "\<forall>r \<in> set (medicineRefs scenarioInput). ?h' r = ?h r"
    unfolding r using s by simp
  from t agree have four: "groupByRowCaptain ?h' (medicineRefs scenarioInput)
       = groupByRowCaptain ?h (medicineRefs scenarioInput)" by blast
  from t e obtain grouped where
    g: "groupByRowCaptain ?h (medicineRefs scenarioInput) = Inr grouped"
      "medicines ?out = filter (\<lambda>row. medName row \<noteq> None) grouped"
    by blast
  from g(2) have "filter (\<lambda>row. medName row \<noteq> None) grouped
           = [\<lparr>medName = Some ''Medicine 1'', batchExp = None, quantity = Some ''5'',
                hsnCode = None, amount = Some ''120''\<rparr>]"
    by (simp del: not_None_eq)
  with g(1) have five: "\<exists>grouped.
         groupByRowCaptain ?h (medicineRefs scenarioInput) = Inr grouped
       \<and> filter (\<lambda>row. medName row \<noteq> None) grouped
           = [\<lparr>medName = Some ''Medicine 1'', batchExp = None, quantity = Some ''5'',
                hsnCode = None, amount = Some ''120''\<rparr>]"
    by blast
  show ?thesis using a r one two three four five e by blast
qed

subsection \<open>C9: the zero-anchor branch\<close>

text \<open>
  C9. Without anchors and with a non-empty input, \<open>groupByRowCaptain\<close> returns exactly one
  row, each slot holding the label of the first detection classified to it. When every
  detection carries a class label this is so (\<open>groupByRowCaptain_fallback_row\<close>). With
  a quantity detection followed by a detection without a class label there is no anchor,
  and the call raises instead of returning the row with the quantity.
\<close>

theorem groupByRowCaptain_fallback_raises:
  "anchorsOf (heapOf [detection (Some ''Quantity'') 0 0 (9 / 10) None,
                      detection None 0 40 (1 / 2) None]) [0, 1] = []
   \<and> groupByRowCaptain
       (heapOf [detection (Some ''Quantity'') 0 0 (9 / 10) None,
                detection None 0 40 (1 / 2) None]) [0, 1]
     = Inl TypeError"
  by code_simp

subsection \<open>C10: no anchor, no medicines\<close>

text \<open>
  C10, as stated: without an anchor in the medicine set the result has no medicines,
  because every label that the classifier maps to the name slot is an anchor label. The
  label \<open>Quantity medname\<close> is kept by the filter, is no anchor, and is mapped to the name
  slot by the pattern \<open>medname\<close>: the row of the zero-anchor branch gets a name and stays.
\<close>

theorem no_anchor_no_medicines_counterexample:
  "anchorsOf
     (heapOf (convertToBboxFormat [rawDetection (Some ''Quantity medname'') 0 0 None None]))
     (medicineRefs [rawDetection (Some ''Quantity medname'') 0 0 None None]) = []
   \<and> extractBillData [rawDetection (Some ''Quantity medname'') 0 0 None None]
     = Inr \<lparr>medicines =
              [\<lparr>medName = Some ''Quantity medname'', batchExp = None, quantity = None,
                 hsnCode = None, amount = None\<rparr>],
            metadata = emptyMetadata, totalMedicines = 1\<rparr>"
  by code_simp

text \<open>
  C10, amended: when every detection carries a class label, the medicine set contains no
  anchor and no detection that the classifier maps to the name slot, the result has no
  medicines and \<open>totalMedicines\<close> is 0.
\<close>

theorem no_anchor_no_medicines:
  assumes "\<forall>p \<in> set input. raw_class p \<noteq> None"
    and "anchorsOf (heapOf (convertToBboxFormat input)) (medicineRefs input) = []"
    and "\<forall>r \<in> set (medicineRefs input).
           fieldNameOf (heapOf (convertToBboxFormat input) r) \<noteq> Inr (Some MedNameF)"
  shows "extractBillData input =
           Inr \<lparr>medicines = [], metadata = extractMetadata (convertToBboxFormat input),
                totalMedicines = 0\<rparr>"
proof (cases "medicineRefs input = []")
  case True
  then show ?thesis by (simp add: extractBillData_def groupByRowCaptain_Nil Let_def)
next
  case False
  let ?h = "heapOf (convertToBboxFormat input)"
  have cl: "\<forall>r \<in> set (medicineRefs input). cls (?h r) \<noteq> None"
    using assms(1) medicineRefs_range [of _ input] by (auto simp: heapOf_convert)
  from groupByRowCaptain_fallback_row [OF False assms(2) cl] obtain row where
    g: "groupByRowCaptain ?h (medicineRefs input) = Inr [row]"
    and f: "\<forall>f. getField row f = firstWriter ?h (medicineRefs input) f"
    by blast
  have "find (\<lambda>r. fieldNameOf (?h r) = Inr (Some MedNameF)) (medicineRefs input) = None"
    using assms(3) by (simp add: find_None_iff)
  with f have "getField row MedNameF = None" by (simp add: firstWriter_def del: getField.simps)
  then have "medName row = None" by simp
  then show ?thesis using g by (simp add: extractBillData_def Let_def)
qed

text \<open>C10 at \<open>noAnchorInput\<close>, a quantity and an amount.\<close>

theorem no_anchor_no_medicines_witness:
  "map raw_class noAnchorInput = [Some ''Quantity'', Some ''Amount'']
   \<and> medicineRefs noAnchorInput = [0, 1]
   \<and> anchorsOf (heapOf (convertToBboxFormat noAnchorInput)) (medicineRefs noAnchorInput) = []
   \<and> map (\<lambda>r. fieldNameOf (heapOf (convertToBboxFormat noAnchorInput) r))
         (medicineRefs noAnchorInput)
       = [Inr (Some QuantityF), Inr (Some AmountF)]
   \<and> extractBillData noAnchorInput =
       Inr \<lparr>medicines = [], metadata = emptyMetadata, totalMedicines = 0\<rparr>"
proof -
  have l: "map raw_class noAnchorInput = [Some ''Quantity'', Some ''Amount'']" by code_simp
  have r: "medicineRefs noAnchorInput = [0, 1]" by code_simp
  have b: "anchorsOf (heapOf (convertToBboxFormat noAnchorInput)) (medicineRefs noAnchorInput)
             = []" by code_simp
  have f: "map (\<lambda>r. fieldNameOf (heapOf (convertToBboxFormat noAnchorInput) r))
             (medicineRefs noAnchorInput)
           = [Inr (Some QuantityF), Inr (Some AmountF)]" by code_simp
  have a: "\<forall>p \<in> set noAnchorInput. raw_class p \<noteq> None"
  proof
    fix p assume "p \<in> set noAnchorInput"
    then have "raw_class p \<in> set (map raw_class noAnchorInput)" by simp
    then show "raw_class p \<noteq> None" unfolding l by auto
  qed
  have c: "\<forall>r \<in> set (medicineRefs noAnchorInput).
             fieldNameOf (heapOf (convertToBboxFormat noAnchorInput) r) \<noteq> Inr (Some MedNameF)"
  proof
    fix r assume "r \<in> set (medicineRefs noAnchorInput)"
    then have "fieldNameOf (heapOf (convertToBboxFormat noAnchorInput) r)
        \<in> set (map (\<lambda>r. fieldNameOf (heapOf (convertToBboxFormat noAnchorInput) r))
                 (medicineRefs noAnchorInput))" by simp
    then show "fieldNameOf (heapOf (convertToBboxFormat noAnchorInput) r) \<noteq> Inr (Some MedNameF)"
      unfolding f by auto
  qed
  have m: "extractMetadata (convertToBboxFormat noAnchorInput) = emptyMetadata" by code_simp
  show ?thesis using l r b f no_anchor_no_medicines [OF a b c] unfolding m by blast
qed

end
